theory Spec2Isabelle
  imports Main "HOL-Library.Sublist"
begin

section \<open>The ClamAV audit walker of Audits/PythonAV.py\<close>

text \<open>
  The program is one function, \<^verbatim>\<open>audit_files_with_clamav(start_path)\<close>: it checks
  that the start path is a directory, walks the tree below it with \<^verbatim>\<open>os.walk\<close>, runs
  \<^verbatim>\<open>clamscan --no-summary <file>\<close> on every entry that \<^verbatim>\<open>os.path.isfile\<close> accepts and
  writes the outcome to the root logger.

  Everything the function observes of the outside world (the directory listings, the
  answers of \<^verbatim>\<open>os.path.isfile\<close>, what \<^verbatim>\<open>subprocess.run\<close> returns or raises) is an input
  of the model; everything it does (log lines, listings, scanner invocations) is
  appended to a trace in the order in which it happens.
\<close>

subsection \<open>Strings: \<^verbatim>\<open>str(int)\<close>, \<^verbatim>\<open>str.strip()\<close>, \<^verbatim>\<open>os.path.join\<close>\<close>

text \<open>A character is a code point below 256; the decimal digits of \<^verbatim>\<open>str(n)\<close>.\<close>

definition digit_char :: "nat \<Rightarrow> char" where
  "digit_char d = ''0123456789'' ! d"

fun str_nat :: "nat \<Rightarrow> string" where
  "str_nat n = (if n < 10 then [digit_char n] else str_nat (n div 10) @ [digit_char (n mod 10)])"

declare str_nat.simps [simp del]

definition str_int :: "int \<Rightarrow> string" where
  "str_int i = (if i < 0 then CHR ''-'' # str_nat (nat (- i)) else str_nat (nat i))"

text \<open>
  \<^verbatim>\<open>str.strip()\<close> without argument removes the leading and trailing characters for which
  \<^verbatim>\<open>str.isspace()\<close> holds: below code point 256 these are 0x09-0x0D, 0x1C-0x20, 0x85
  and 0xA0.
\<close>

definition py_isspace :: "char \<Rightarrow> bool" where
  "py_isspace c = (c \<in> set [CHR 0x09, CHR 0x0A, CHR 0x0B, CHR 0x0C, CHR 0x0D,
                             CHR 0x1C, CHR 0x1D, CHR 0x1E, CHR 0x1F, CHR 0x20,
                             CHR 0x85, CHR 0xA0])"

definition strip :: "string \<Rightarrow> string" where
  "strip s = rev (dropWhile py_isspace (rev (dropWhile py_isspace s)))"

text \<open>
  \<^verbatim>\<open>posixpath.join(a, b)\<close>: an absolute \<^verbatim>\<open>b\<close> or an empty \<^verbatim>\<open>a\<close> gives \<^verbatim>\<open>b\<close>; otherwise
  the two parts are joined by one slash, which is not doubled when \<^verbatim>\<open>a\<close> ends with one.
\<close>

definition path_join :: "string \<Rightarrow> string \<Rightarrow> string" where
  "path_join a b =
     (if (b \<noteq> [] \<and> hd b = CHR ''/'') \<or> a = [] then b
      else if last a = CHR ''/'' then a @ b
      else a @ ''/'' @ b)"

subsection \<open>The outside world\<close>

text \<open>
  An exception carries the text that \<^verbatim>\<open>str(e)\<close> gives. Only the two classes the
  handlers of the source tell apart are kept apart; every other subclass of
  \<^verbatim>\<open>Exception\<close> is \<open>OtherException\<close>.
\<close>

datatype exn = FileNotFoundError string | PermissionError string | OtherException string

fun exn_str :: "exn \<Rightarrow> string" where
  "exn_str (FileNotFoundError m) = m"
| "exn_str (PermissionError m) = m"
| "exn_str (OtherException m) = m"

text \<open>
  What \<^verbatim>\<open>subprocess.run(command, capture_output=True, text=True, check=False)\<close> does:
  it returns a completed process (return code, captured standard output, captured
  standard error) or raises. With \<^verbatim>\<open>check=False\<close> the return code never makes it raise.
\<close>

datatype run_result = CompletedProcess int string string | RunRaises exn

text \<open>
  What the loop body meets at one name of the \<^verbatim>\<open>files\<close> list that \<^verbatim>\<open>os.walk\<close> yields:
  \<^item> \<open>body_raises\<close>: an exception raised while the entry is handled, outside the inner
    \<^verbatim>\<open>try\<close> around the scanner call (lines 40-46). In CPython neither \<^verbatim>\<open>os.path.join\<close>
    nor \<^verbatim>\<open>os.path.isfile\<close> nor a logging call raises here, so a real file system has
    \<open>None\<close>; the field is what lets the outer handlers (lines 84-89) run at all, and
    every theorem below holds whatever its value;
  \<^item> \<open>isfile\<close>: the answer of \<^verbatim>\<open>os.path.isfile(file_path)\<close> at scan time (it follows symbolic
    links and answers False when the entry has gone or cannot be examined);
  \<^item> \<open>run\<close>: what \<^verbatim>\<open>subprocess.run\<close> does for this file.
\<close>

datatype file_env = FileEnv (body_raises: "exn option") (isfile: bool) (run: run_result)

text \<open>
  What \<^verbatim>\<open>os.walk\<close> meets: a directory entry is a non-directory (it goes to \<^verbatim>\<open>files\<close>) or
  a directory (it goes to \<^verbatim>\<open>dirs\<close>), which may be a symbolic link and has the result of
  \<^verbatim>\<open>os.scandir\<close> on it: its entries in listing order, or an \<^verbatim>\<open>OSError\<close>.
\<close>

datatype dirent =
    NonDir file_env
  | SubDir (islink: bool) (listing: scandir_result)
and scandir_result =
    Entries "(string \<times> dirent) list"
  | ScandirRaises exn

record world =
  os_path_isdir :: "string \<Rightarrow> bool"
  os_scandir :: scandir_result

fun dirs_of :: "(string \<times> dirent) list \<Rightarrow> string list" where
  "dirs_of [] = []"
| "dirs_of ((name, SubDir l r) # es) = name # dirs_of es"
| "dirs_of ((name, NonDir f) # es) = dirs_of es"

fun files_of :: "(string \<times> dirent) list \<Rightarrow> (string \<times> file_env) list" where
  "files_of [] = []"
| "files_of ((name, NonDir f) # es) = (name, f) # files_of es"
| "files_of ((name, SubDir l r) # es) = files_of es"

subsection \<open>The trace and the state of a run\<close>

datatype level = DEBUG | INFO | WARNING | ERROR

fun level_no :: "level \<Rightarrow> nat" where
  "level_no DEBUG = 10"
| "level_no INFO = 20"
| "level_no WARNING = 30"
| "level_no ERROR = 40"

record run_options =
  opt_capture_output :: bool
  opt_text :: bool
  opt_check :: bool

text \<open>
  The events of a run, in the order in which they happen:
  \<^item> \<open>Log\<close>: a line that reaches the log stream, with its level and message;
  \<^item> \<open>ScandirFailed\<close>: \<^verbatim>\<open>os.walk\<close> could not list a directory;
  \<^item> \<open>Yield\<close>: \<^verbatim>\<open>os.walk\<close> listed a directory and yields \<^verbatim>\<open>(root, dirs, files)\<close>;
  \<^item> \<open>Skip\<close>: the loop body took the branch of lines 28-30 for a yielded directory;
  \<^item> \<open>IsFile\<close>: \<^verbatim>\<open>os.path.isfile\<close> was asked about a path and gave this answer;
  \<^item> \<open>Run\<close>: \<^verbatim>\<open>subprocess.run\<close> was called with this argument list and these options,
    and did this.
\<close>

datatype event =
    Log level string
  | ScandirFailed string exn
  | Yield string "string list" "string list"
  | Skip string
  | IsFile string bool
  | Run "string list" run_options run_result

record state =
  trace :: "event list"
  inaccessible_dirs :: "string set"

definition emit :: "event \<Rightarrow> state \<Rightarrow> state" where
  "emit e s = s\<lparr>trace := trace s @ [e]\<rparr>"

text \<open>
  Line 6, \<^verbatim>\<open>logging.basicConfig(level=logging.INFO, ...)\<close>: the root logger drops every
  record below INFO, so the \<^verbatim>\<open>logging.debug\<close> call of line 46 writes nothing.
\<close>

definition logging_log :: "level \<Rightarrow> string \<Rightarrow> state \<Rightarrow> state" where
  "logging_log lvl msg s = (if level_no INFO \<le> level_no lvl then emit (Log lvl msg) s else s)"

subsection \<open>The per-file scan (lines 46-82)\<close>

datatype control = Continue | Return | Raise exn

definition clamscan_command :: "string \<Rightarrow> string list" where
  "clamscan_command file_path = [''clamscan'', ''--no-summary'', file_path]"

definition clamscan_options :: run_options where
  "clamscan_options = \<lparr>opt_capture_output = True, opt_text = True, opt_check = False\<rparr>"

definition clean_msg :: "string \<Rightarrow> string" where
  "clean_msg file_path = ''CLEAN: '' @ file_path"

definition infected_msg :: "string \<Rightarrow> string" where
  "infected_msg file_path = ''INFECTED: '' @ file_path"

definition output_msg :: "string \<Rightarrow> string" where
  "output_msg out = ''  ClamAV Output: '' @ strip out"

definition scan_error_msg :: "string \<Rightarrow> int \<Rightarrow> string" where
  "scan_error_msg file_path returncode =
     ''ERROR scanning '' @ file_path @ '' (Return Code: '' @ str_int returncode @ '')''"

definition stderr_msg :: "string \<Rightarrow> string" where
  "stderr_msg err = ''  ClamAV Stderr: '' @ strip err"

definition not_found_msg :: string where
  "not_found_msg =
     ''ClamAV (clamscan) not found. Please ensure ClamAV is installed and in your system''
     @ [CHR 0x27] @ ''s PATH.''"

definition unexpected_msg :: "string \<Rightarrow> exn \<Rightarrow> string" where
  "unexpected_msg file_path e =
     ''An unexpected error occurred while scanning '' @ file_path @ '': '' @ exn_str e"

definition scan_file :: "string \<Rightarrow> run_result \<Rightarrow> state \<Rightarrow> control \<times> state" where
  "scan_file file_path r s0 =
     (let s1 = logging_log DEBUG (''Scanning: '' @ file_path) s0;
          s2 = emit (Run (clamscan_command file_path) clamscan_options r) s1
      in case r of
           CompletedProcess returncode out err \<Rightarrow>
             if returncode = 0 then
               (Continue, logging_log INFO (clean_msg file_path) s2)
             else if returncode = 1 then
               (Continue, logging_log WARNING (output_msg out)
                            (logging_log WARNING (infected_msg file_path) s2))
             else
               (Continue, logging_log ERROR (stderr_msg err)
                            (logging_log ERROR (scan_error_msg file_path returncode) s2))
         | RunRaises (FileNotFoundError m) \<Rightarrow>
             (Return, logging_log ERROR not_found_msg s2)
         | RunRaises e \<Rightarrow>
             (Continue, logging_log ERROR (unexpected_msg file_path e) s2))"

subsection \<open>The loop over the files of one directory (lines 39-82)\<close>

fun files_loop :: "string \<Rightarrow> (string \<times> file_env) list \<Rightarrow> state \<Rightarrow> control \<times> state" where
  "files_loop root [] s = (Continue, s)"
| "files_loop root ((file_name, FileEnv fault isf r) # rest) s =
     (let file_path = path_join root file_name in
      case fault of
        Some e \<Rightarrow> (Raise e, s)
      | None \<Rightarrow>
          let s1 = emit (IsFile file_path isf) s in
          if \<not> isf then files_loop root rest s1
          else (case scan_file file_path r s1 of
                  (c, s2) \<Rightarrow> if c = Continue then files_loop root rest s2 else (c, s2)))"

subsection \<open>The body of the \<^verbatim>\<open>os.walk\<close> loop (lines 27-89)\<close>

definition permission_msg :: "string \<Rightarrow> string" where
  "permission_msg root =
     ''Permission denied to access directory: '' @ root @ ''. Skipping this directory.''"

definition traversal_msg :: "string \<Rightarrow> exn \<Rightarrow> string" where
  "traversal_msg root e =
     ''An error occurred during directory traversal in '' @ root @ '': '' @ exn_str e"

text \<open>
  The body receives what \<^verbatim>\<open>os.walk\<close> yields and gives back the \<^verbatim>\<open>dirs\<close> list as it
  leaves it (\<^verbatim>\<open>dirs[:] = []\<close> empties the list \<^verbatim>\<open>os.walk\<close> will descend into).
\<close>

definition loop_body ::
  "string \<Rightarrow> string list \<Rightarrow> (string \<times> file_env) list \<Rightarrow> state \<Rightarrow> control \<times> string list \<times> state"
where
  "loop_body root dirs files s =
     (if root \<in> inaccessible_dirs s then (Continue, [], emit (Skip root) s)
      else case files_loop root files s of
             (Raise (PermissionError m), s1) \<Rightarrow>
               (Continue, [],
                (logging_log WARNING (permission_msg root) s1)
                  \<lparr>inaccessible_dirs := insert root (inaccessible_dirs s1)\<rparr>)
           | (Raise e, s1) \<Rightarrow>
               (Continue, dirs, logging_log ERROR (traversal_msg root e) s1)
           | (c, s1) \<Rightarrow> (c, dirs, s1))"

subsection \<open>\<^verbatim>\<open>os.walk(start_path)\<close> driving the loop body (line 26)\<close>

text \<open>
  \<^verbatim>\<open>os.walk(top)\<close> with its defaults (\<^verbatim>\<open>topdown=True, onerror=None, followlinks=False\<close>):
  it lists \<^verbatim>\<open>top\<close>; an \<^verbatim>\<open>OSError\<close> of the listing is ignored and the directory is not
  yielded (\<^verbatim>\<open>onerror\<close> is None); otherwise it yields \<^verbatim>\<open>(top, dirs, files)\<close>, the loop body
  runs, and then every name left in \<^verbatim>\<open>dirs\<close> that is not a symbolic link is walked in
  turn, as \<^verbatim>\<open>os.path.join(top, name)\<close>. The \<^verbatim>\<open>return\<close> of line 80 abandons the generator.
\<close>

function walk :: "string \<Rightarrow> scandir_result \<Rightarrow> state \<Rightarrow> control \<times> state"
  and walk_subdirs :: "string \<Rightarrow> string list \<Rightarrow> (string \<times> dirent) list \<Rightarrow> state \<Rightarrow> control \<times> state"
where
  "walk top_path (ScandirRaises e) s = (Continue, emit (ScandirFailed top_path e) s)"
| "walk top_path (Entries es) s =
     (case loop_body top_path (dirs_of es) (files_of es)
             (emit (Yield top_path (dirs_of es) (map fst (files_of es))) s) of
        (c, dirs, s1) \<Rightarrow> if c = Return then (Return, s1) else walk_subdirs top_path dirs es s1)"
| "walk_subdirs top_path dirs [] s = (Continue, s)"
| "walk_subdirs top_path dirs ((name, NonDir f) # rest) s = walk_subdirs top_path dirs rest s"
| "walk_subdirs top_path dirs ((name, SubDir link r) # rest) s =
     (if name \<notin> set dirs \<or> link then walk_subdirs top_path dirs rest s
      else case walk (path_join top_path name) r s of
             (c, s1) \<Rightarrow> if c = Return then (Return, s1) else walk_subdirs top_path dirs rest s1)"
  by pat_completeness auto

termination
  by (relation "measure (\<lambda>x. case x of
          Inl (top_path, r, s) \<Rightarrow> size r
        | Inr (top_path, dirs, es, s) \<Rightarrow> size_list (size_prod (\<lambda>n. 0) size) es)")
     auto

subsection \<open>\<^verbatim>\<open>audit_files_with_clamav\<close> (lines 8-91)\<close>

definition invalid_root_msg :: "string \<Rightarrow> string" where
  "invalid_root_msg start_path =
     ''Error: The provided path '' @ [CHR 0x27] @ start_path @ [CHR 0x27]
     @ '' is not a valid directory.''"

definition init_state :: state where
  "init_state = \<lparr>trace = [], inaccessible_dirs = {}\<rparr>"

definition audit_files_with_clamav :: "world \<Rightarrow> string \<Rightarrow> state" where
  "audit_files_with_clamav w start_path =
     (if \<not> os_path_isdir w start_path then
        logging_log ERROR (invalid_root_msg start_path) init_state
      else
        case walk start_path (os_scandir w)
               (logging_log INFO (''Starting ClamAV audit of: '' @ start_path) init_state) of
          (c, s) \<Rightarrow> if c = Return then s else logging_log INFO ''ClamAV audit completed.'' s)"

section \<open>What a step appends to the trace\<close>

text \<open>
  The scan of one file and the loop over the files of one directory only append to the
  trace, and what they append does not depend on the state they start from. The events
  and the control outcome of a step are therefore read off the run from the initial
  state.
\<close>

definition scan_events :: "string \<Rightarrow> run_result \<Rightarrow> event list" where
  "scan_events p r = trace (snd (scan_file p r init_state))"

definition scan_control :: "string \<Rightarrow> run_result \<Rightarrow> control" where
  "scan_control p r = fst (scan_file p r init_state)"

definition files_events :: "string \<Rightarrow> (string \<times> file_env) list \<Rightarrow> event list" where
  "files_events root files = trace (snd (files_loop root files init_state))"

definition files_control :: "string \<Rightarrow> (string \<times> file_env) list \<Rightarrow> control" where
  "files_control root files = fst (files_loop root files init_state)"

section \<open>Predicates on traces\<close>

text \<open>The scanner call that found no binary.\<close>

fun run_not_found :: "event \<Rightarrow> bool" where
  "run_not_found (Run argv opts (RunRaises (FileNotFoundError m))) = True"
| "run_not_found e = False"

text \<open>
  A trace is quiet when the binary was never found missing and the line for it was never
  logged; it is aborted when it ends with the call that found the binary missing and the
  line logged for it, after a quiet trace.
\<close>

definition quiet :: "event list \<Rightarrow> bool" where
  "quiet t = (\<forall>e\<in>set t. \<not> run_not_found e \<and> e \<noteq> Log ERROR not_found_msg)"

definition aborted :: "event list \<Rightarrow> bool" where
  "aborted t = (\<exists>pre argv opts m. quiet pre \<and>
      t = pre @ [Run argv opts (RunRaises (FileNotFoundError m)), Log ERROR not_found_msg])"

text \<open>
  A trace is guarded when every scanner call in it has the options of the source and
  comes right after the \<^verbatim>\<open>os.path.isfile\<close> check that accepted the path it scans.
\<close>

definition guarded :: "event list \<Rightarrow> bool" where
  "guarded t = (\<forall>i<length t. \<forall>argv opts r. t ! i = Run argv opts r \<longrightarrow>
      opts = clamscan_options \<and> 0 < i \<and>
      (\<exists>p. argv = clamscan_command p \<and> t ! (i - 1) = IsFile p True))"

text \<open>
  Every path in the set of inaccessible directories is a directory that the trace shows
  as yielded and as logged with the permission warning.
\<close>

definition found_here :: "state \<Rightarrow> bool" where
  "found_here s = (\<forall>d\<in>inaccessible_dirs s.
      (\<exists>dirs files. Yield d dirs files \<in> set (trace s)) \<and>
      Log WARNING (permission_msg d) \<in> set (trace s))"

section \<open>Well-formed trees and the paths of a tree\<close>

text \<open>
  What \<^verbatim>\<open>os.scandir\<close> guarantees of a listing: a name is not empty and holds no slash, and
  the names of one directory are distinct.
\<close>

definition valid_name :: "string \<Rightarrow> bool" where
  "valid_name n = (n \<noteq> [] \<and> CHR ''/'' \<notin> set n)"

function wf_listing :: "scandir_result \<Rightarrow> bool"
  and wf_entries :: "(string \<times> dirent) list \<Rightarrow> bool"
where
  "wf_listing (ScandirRaises e) = True"
| "wf_listing (Entries es) = (distinct (map fst es) \<and> wf_entries es)"
| "wf_entries [] = True"
| "wf_entries ((n, NonDir f) # es) = (valid_name n \<and> wf_entries es)"
| "wf_entries ((n, SubDir l r) # es) = (valid_name n \<and> wf_listing r \<and> wf_entries es)"
  by pat_completeness auto

termination
  by (relation "measure (\<lambda>x. case x of
          Inl r \<Rightarrow> size r
        | Inr es \<Rightarrow> size_list (size_prod (\<lambda>n. 0) size) es)")
     auto

text \<open>
  The paths of a tree: the directory itself, its non-directory entries, and the paths of
  its subdirectories. \<open>base p\<close> is what \<^verbatim>\<open>os.path.join\<close> puts before a name, and a path
  is inside the entry \<open>n\<close> of \<open>p\<close> when it is that entry or lies below it.
\<close>

function paths :: "string \<Rightarrow> scandir_result \<Rightarrow> string list"
  and subdir_paths :: "string \<Rightarrow> (string \<times> dirent) list \<Rightarrow> string list"
where
  "paths top_path (ScandirRaises e) = [top_path]"
| "paths top_path (Entries es) =
     top_path # map (path_join top_path) (map fst (files_of es)) @ subdir_paths top_path es"
| "subdir_paths top_path [] = []"
| "subdir_paths top_path ((n, NonDir f) # es) = subdir_paths top_path es"
| "subdir_paths top_path ((n, SubDir l r) # es) =
     paths (path_join top_path n) r @ subdir_paths top_path es"
  by pat_completeness auto

termination
  by (relation "measure (\<lambda>x. case x of
          Inl (p, r) \<Rightarrow> size r
        | Inr (p, es) \<Rightarrow> size_list (size_prod (\<lambda>n. 0) size) es)")
     auto

definition base :: "string \<Rightarrow> string" where
  "base p = (if last p = CHR ''/'' then p else p @ ''/'')"

definition inside :: "string \<Rightarrow> string \<Rightarrow> string \<Rightarrow> bool" where
  "inside p n q = (\<exists>rest. q = base p @ n @ rest \<and> (rest = [] \<or> hd rest = CHR ''/''))"

section \<open>What a trace visits\<close>

text \<open>The events of the branch of lines 28-30.\<close>

fun is_skip :: "event \<Rightarrow> bool" where
  "is_skip (Skip root) = True"
| "is_skip e = False"

text \<open>
  The directories a trace yields, the paths it passes to the scanner (the last argument
  of the command), and both together in the order of the trace.
\<close>

fun yielded :: "event list \<Rightarrow> string list" where
  "yielded [] = []"
| "yielded (Yield d dirs files # t) = d # yielded t"
| "yielded (e # t) = yielded t"

fun scanned :: "event list \<Rightarrow> string list" where
  "scanned [] = []"
| "scanned (Run argv opts r # t) = last argv # scanned t"
| "scanned (e # t) = scanned t"

fun visited :: "event list \<Rightarrow> string list" where
  "visited [] = []"
| "visited (Yield d dirs files # t) = d # visited t"
| "visited (Run argv opts r # t) = last argv # visited t"
| "visited (e # t) = visited t"

section \<open>Classifications\<close>

text \<open>
  An event classifies a path when it is one of the three lines that the scan logs for a
  completed scanner process on that path (clean, infected, scan error with some return
  code); a scanner call is completed on a path when its command ends with that path and
  the process returned.
\<close>

definition classifies :: "string \<Rightarrow> event \<Rightarrow> bool" where
  "classifies p e =
     (e = Log INFO (clean_msg p) \<or> e = Log WARNING (infected_msg p)
      \<or> (\<exists>rc. e = Log ERROR (scan_error_msg p rc)))"

fun completed_on :: "string \<Rightarrow> event \<Rightarrow> bool" where
  "completed_on p (Run argv opts (CompletedProcess rc out err)) = (last argv = p)"
| "completed_on p e = False"

text \<open>
  A state is balanced when its trace classifies a path as often as a scanner process
  completed on it.
\<close>

definition balanced :: "state \<Rightarrow> bool" where
  "balanced s = (\<forall>p. length (filter (classifies p) (trace s))
                     = length (filter (completed_on p) (trace s)))"

section \<open>The scanner calls of a run\<close>

text \<open>
  The scanner calls of a trace, in order: the path each call scans (the last argument of
  its command) and how the call ended. A call is missing when it raised
  \<^verbatim>\<open>FileNotFoundError\<close> (the binary is not there), completed when the process returned.
\<close>

fun is_missing :: "run_result \<Rightarrow> bool" where
  "is_missing (RunRaises (FileNotFoundError m)) = True"
| "is_missing r = False"

fun is_completed :: "run_result \<Rightarrow> bool" where
  "is_completed (CompletedProcess rc out err) = True"
| "is_completed (RunRaises e) = False"

fun runs :: "event list \<Rightarrow> (string \<times> run_result) list" where
  "runs [] = []"
| "runs (Run argv opts r # t) = (last argv, r) # runs t"
| "runs (e # t) = runs t"

text \<open>
  A list of calls cut after its first missing call, and whether it holds one.
\<close>

fun has_missing :: "(string \<times> run_result) list \<Rightarrow> bool" where
  "has_missing [] = False"
| "has_missing ((p, r) # xs) = (is_missing r \<or> has_missing xs)"

fun until_missing :: "(string \<times> run_result) list \<Rightarrow> (string \<times> run_result) list" where
  "until_missing [] = []"
| "until_missing ((p, r) # xs) = (p, r) # (if is_missing r then [] else until_missing xs)"

text \<open>
  What a tree offers to the scanner. In one directory: the entries that
  \<^verbatim>\<open>os.path.isfile\<close> accepts, each with the path joined from the directory and its name
  and with the result its scanner call has, up to the first entry at which the loop body
  raises outside the scan (\<open>files_fault\<close> is that exception). Whatever the result of a
  call is, the entries after it still count. In a tree: the files of the directory, then,
  unless the loop body raised \<^verbatim>\<open>PermissionError\<close> there (lines 84-87 empty \<^verbatim>\<open>dirs\<close>), those
  of its subdirectories in the order of the listing; a directory that cannot be listed
  offers nothing and a symbolic link to a directory is not followed.
\<close>

fun file_runs :: "string \<Rightarrow> (string \<times> file_env) list \<Rightarrow> (string \<times> run_result) list" where
  "file_runs root [] = []"
| "file_runs root ((n, FileEnv fault isf r) # fs) =
     (case fault of
        Some e \<Rightarrow> []
      | None \<Rightarrow> (if isf then [(path_join root n, r)] else []) @ file_runs root fs)"

fun files_fault :: "(string \<times> file_env) list \<Rightarrow> exn option" where
  "files_fault [] = None"
| "files_fault ((n, FileEnv fault isf r) # fs) =
     (case fault of Some e \<Rightarrow> Some e | None \<Rightarrow> files_fault fs)"

fun prunes :: "exn option \<Rightarrow> bool" where
  "prunes (Some (PermissionError m)) = True"
| "prunes x = False"

function reg_runs :: "string \<Rightarrow> scandir_result \<Rightarrow> (string \<times> run_result) list"
  and sub_reg_runs :: "string \<Rightarrow> (string \<times> dirent) list \<Rightarrow> (string \<times> run_result) list"
where
  "reg_runs top_path (ScandirRaises e) = []"
| "reg_runs top_path (Entries es) =
     file_runs top_path (files_of es)
     @ (if prunes (files_fault (files_of es)) then [] else sub_reg_runs top_path es)"
| "sub_reg_runs top_path [] = []"
| "sub_reg_runs top_path ((n, NonDir f) # es) = sub_reg_runs top_path es"
| "sub_reg_runs top_path ((n, SubDir l r) # es) =
     (if l then [] else reg_runs (path_join top_path n) r) @ sub_reg_runs top_path es"
  by pat_completeness auto

termination
  by (relation "measure (\<lambda>x. case x of
          Inl (p, r) \<Rightarrow> size r
        | Inr (p, es) \<Rightarrow> size_list (size_prod (\<lambda>n. 0) size) es)")
     auto

text \<open>
  The lines that the scan of one file logs after its scanner call, as \<open>scan_file\<close> writes
  them. A trace is settled when every scanner call in it is followed at once by the lines
  that its own path and its own result give.
\<close>

definition outcome_logs :: "string \<Rightarrow> run_result \<Rightarrow> event list" where
  "outcome_logs p r = tl (scan_events p r)"

fun settled :: "event list \<Rightarrow> bool" where
  "settled [] = True"
| "settled (Run argv opts r # t) = (prefix (outcome_logs (last argv) r) t \<and> settled t)"
| "settled (e # t) = settled t"

section \<open>Concrete trees\<close>

text \<open>
  The tree of the scenario: a directory holding \<^verbatim>\<open>a.txt\<close> (the scanner exits with 0),
  \<^verbatim>\<open>b.exe\<close> (the scanner exits with 1 and names a signature) and \<^verbatim>\<open>locked/\<close>, a
  directory whose listing is denied.
\<close>

definition scenario :: scandir_result where
  "scenario = Entries
     [(''a.txt'', NonDir (FileEnv None True (CompletedProcess 0 [] []))),
      (''b.exe'', NonDir (FileEnv None True
          (CompletedProcess 1 (''/data/b.exe: Test.Signature FOUND'' @ [CHR 0x0A]) []))),
      (''locked'', SubDir False (ScandirRaises (PermissionError ''[Errno 13] Permission denied'')))]"

text \<open>
  A tree scanned on a machine without the scanner: the first scanner call finds no binary.
\<close>

definition no_scanner :: scandir_result where
  "no_scanner = Entries
     [(''a.txt'', NonDir (FileEnv None True (RunRaises (FileNotFoundError
         ''[Errno 2] No such file or directory: clamscan'')))),
      (''b.exe'', NonDir (FileEnv None True (CompletedProcess 1 [] []))),
      (''sub'', SubDir False (Entries
         [(''c.txt'', NonDir (FileEnv None True (CompletedProcess 0 [] [])))]))]"

text \<open>
  A directory holding a named pipe, an entry that is gone when it is checked, and one
  regular file.
\<close>

definition mixed :: scandir_result where
  "mixed = Entries
     [(''pipe'', NonDir (FileEnv None False (RunRaises (OtherException [])))),
      (''gone.tmp'', NonDir (FileEnv None False (RunRaises (OtherException [])))),
      (''a.txt'', NonDir (FileEnv None True (CompletedProcess 0 [] [])))]"

text \<open>
  A tree in which the loop body raises \<^verbatim>\<open>PermissionError\<close> while it handles the first
  file of \<^verbatim>\<open>sub/\<close>.
\<close>

definition faulty :: scandir_result where
  "faulty = Entries
     [(''sub'', SubDir False (Entries
         [(''f'', NonDir (FileEnv (Some (PermissionError ''[Errno 13] Permission denied'')) True
                    (CompletedProcess 0 [] []))),
          (''deep'', SubDir False (Entries
             [(''g'', NonDir (FileEnv None True (CompletedProcess 0 [] [])))]))])),
      (''z.txt'', NonDir (FileEnv None True (CompletedProcess 0 [] [])))]"

text \<open>
  A tree in which the scanner call for the first file fails with an exception other than
  the missing binary; another file and a subdirectory with one file come after it.
\<close>

definition flaky :: scandir_result where
  "flaky = Entries
     [(''x'', NonDir (FileEnv None True
         (RunRaises (OtherException ''[Errno 12] Cannot allocate memory'')))),
      (''y'', NonDir (FileEnv None True (CompletedProcess 0 [] []))),
      (''sub'', SubDir False (Entries
         [(''z'', NonDir (FileEnv None True (CompletedProcess 1 [] [])))]))]"


section \<open>Auxiliary lemmas\<close>

lemma logging_log_inaccessible [simp]:
  "inaccessible_dirs (logging_log lvl msg s) = inaccessible_dirs s"
  by (simp add: logging_log_def emit_def)

lemma emit_inaccessible [simp]:
  "inaccessible_dirs (emit e s) = inaccessible_dirs s"
  by (simp add: emit_def)

lemma emit_trace [simp]: "trace (emit e s) = trace s @ [e]"
  by (simp add: emit_def)

lemma logging_log_trace:
  "trace (logging_log lvl msg s) = trace s @ (if lvl = DEBUG then [] else [Log lvl msg])"
  by (cases lvl) (simp_all add: logging_log_def)

lemma state_eqI: "trace s = trace s' \<Longrightarrow> inaccessible_dirs s = inaccessible_dirs s' \<Longrightarrow> (s::state) = s'"
  by simp

lemma scan_file_frame:
  "scan_file p r s = (scan_control p r, s\<lparr>trace := trace s @ scan_events p r\<rparr>)"
  by (simp add: scan_control_def scan_events_def scan_file_def Let_def init_state_def
        logging_log_def emit_def split: run_result.splits exn.splits)

lemma files_loop_fault:
  "files_loop root ((n, FileEnv (Some e) isf r) # rest) s = (Raise e, s)"
  by simp

lemma files_loop_not_file:
  "files_loop root ((n, FileEnv None False r) # rest) s =
     files_loop root rest (emit (IsFile (path_join root n) False) s)"
  by simp

lemma files_loop_file:
  "files_loop root ((n, FileEnv None True r) # rest) s =
     (if scan_control (path_join root n) r = Continue
      then files_loop root rest
             (s\<lparr>trace := trace s @ IsFile (path_join root n) True # scan_events (path_join root n) r\<rparr>)
      else (scan_control (path_join root n) r,
            s\<lparr>trace := trace s @ IsFile (path_join root n) True # scan_events (path_join root n) r\<rparr>))"
  by (simp add: Let_def scan_file_frame emit_def)

declare files_loop.simps(2) [simp del]

lemma files_loop_frame:
  "files_loop root files s =
     (files_control root files, s\<lparr>trace := trace s @ files_events root files\<rparr>)"
proof (induction files arbitrary: s)
  case Nil
  show ?case by (simp add: files_control_def files_events_def init_state_def)
next
  case (Cons a files)
  obtain n fault isf r where a: "a = (n, FileEnv fault isf r)"
    by (cases a, rename_tac n f, case_tac f) auto
  note IH = Cons.IH
  show ?case
  proof (cases fault)
    case (Some e)
    with a show ?thesis
      by (simp add: files_control_def files_events_def init_state_def files_loop_fault)
  next
    case None
    show ?thesis
    proof (cases isf)
      case False
      have l: "files_loop root (a # files) x = (files_control root files,
           x\<lparr>trace := trace x @ IsFile (path_join root n) False # files_events root files\<rparr>)" for x
        using a None False by (simp add: files_loop_not_file IH [of "x\<lparr>trace := trace x @ [IsFile (path_join root n) False]\<rparr>"] emit_def)
      have c: "files_control root (a # files) = files_control root files"
        unfolding files_control_def [of root "a # files"] l [of init_state] by simp
      have e: "files_events root (a # files) = IsFile (path_join root n) False # files_events root files"
        unfolding files_events_def [of root "a # files"] l [of init_state] by (simp add: init_state_def)
      show ?thesis unfolding l c e ..
    next
      case True
      let ?p = "path_join root n"
      show ?thesis
      proof (cases "scan_control ?p r = Continue")
        case cont: True
        have l: "files_loop root (a # files) x = (files_control root files,
             x\<lparr>trace := trace x @ IsFile ?p True # scan_events ?p r @ files_events root files\<rparr>)" for x
          using a None True cont
          by (simp add: files_loop_file IH [of "x\<lparr>trace := trace x @ IsFile ?p True # scan_events ?p r\<rparr>"])
        have c: "files_control root (a # files) = files_control root files"
          unfolding files_control_def [of root "a # files"] l [of init_state] by simp
        have e: "files_events root (a # files) = IsFile ?p True # scan_events ?p r @ files_events root files"
          unfolding files_events_def [of root "a # files"] l [of init_state] by (simp add: init_state_def)
        show ?thesis unfolding l c e ..
      next
        case stop: False
        have l: "files_loop root (a # files) x = (scan_control ?p r,
             x\<lparr>trace := trace x @ IsFile ?p True # scan_events ?p r\<rparr>)" for x
          using a None True stop by (simp add: files_loop_file)
        have c: "files_control root (a # files) = scan_control ?p r"
          unfolding files_control_def [of root "a # files"] l [of init_state] by simp
        have e: "files_events root (a # files) = IsFile ?p True # scan_events ?p r"
          unfolding files_events_def [of root "a # files"] l [of init_state] by (simp add: init_state_def)
        show ?thesis unfolding l c e ..
      qed
    qed
  qed
qed

lemma scan_control_simps [simp]:
  "scan_control p (CompletedProcess rc out err) = Continue"
  "scan_control p (RunRaises (FileNotFoundError m)) = Return"
  "scan_control p (RunRaises (PermissionError m)) = Continue"
  "scan_control p (RunRaises (OtherException m)) = Continue"
  by (simp_all add: scan_control_def scan_file_def Let_def)

lemma scan_events_completed:
  "scan_events p (CompletedProcess rc out err) =
     Run (clamscan_command p) clamscan_options (CompletedProcess rc out err) #
     (if rc = 0 then [Log INFO (clean_msg p)]
      else if rc = 1 then [Log WARNING (infected_msg p), Log WARNING (output_msg out)]
      else [Log ERROR (scan_error_msg p rc), Log ERROR (stderr_msg err)])"
  by (simp add: scan_events_def scan_file_def Let_def init_state_def logging_log_def emit_def)

lemma scan_events_raises:
  "scan_events p (RunRaises e) =
     [Run (clamscan_command p) clamscan_options (RunRaises e),
      Log ERROR (case e of FileNotFoundError m \<Rightarrow> not_found_msg | _ \<Rightarrow> unexpected_msg p e)]"
  by (simp add: scan_events_def scan_file_def Let_def init_state_def logging_log_def emit_def
        split: exn.splits)

lemma files_control_Nil [simp]: "files_control root [] = Continue"
  by (simp add: files_control_def)

lemma files_events_Nil [simp]: "files_events root [] = []"
  by (simp add: files_events_def init_state_def)

lemma files_control_fault [simp]:
  "files_control root ((n, FileEnv (Some e) isf r) # rest) = Raise e"
  by (simp add: files_control_def files_loop_fault)

lemma files_events_fault [simp]:
  "files_events root ((n, FileEnv (Some e) isf r) # rest) = []"
  by (simp add: files_events_def files_loop_fault init_state_def)

lemma files_control_not_file [simp]:
  "files_control root ((n, FileEnv None False r) # rest) = files_control root rest"
  by (subst files_control_def, subst files_loop_not_file, subst files_loop_frame) simp

lemma files_events_not_file [simp]:
  "files_events root ((n, FileEnv None False r) # rest) =
     IsFile (path_join root n) False # files_events root rest"
  by (subst files_events_def, subst files_loop_not_file, subst files_loop_frame)
     (simp add: init_state_def)

lemma files_control_file [simp]:
  "files_control root ((n, FileEnv None True r) # rest) =
     (if scan_control (path_join root n) r = Continue then files_control root rest
      else scan_control (path_join root n) r)"
  by (subst files_control_def, subst files_loop_file, subst files_loop_frame) simp

lemma files_events_file [simp]:
  "files_events root ((n, FileEnv None True r) # rest) =
     IsFile (path_join root n) True # scan_events (path_join root n) r @
     (if scan_control (path_join root n) r = Continue then files_events root rest else [])"
  by (subst files_events_def, subst files_loop_file, subst files_loop_frame)
     (simp add: init_state_def)

lemma loop_body_eq:
  "loop_body root dirs files s =
     (if root \<in> inaccessible_dirs s then (Continue, [], s\<lparr>trace := trace s @ [Skip root]\<rparr>)
      else case files_control root files of
             Raise (PermissionError m) \<Rightarrow>
               (Continue, [],
                \<lparr>trace = trace s @ files_events root files @ [Log WARNING (permission_msg root)],
                 inaccessible_dirs = insert root (inaccessible_dirs s)\<rparr>)
           | Raise e \<Rightarrow>
               (Continue, dirs,
                s\<lparr>trace := trace s @ files_events root files @ [Log ERROR (traversal_msg root e)]\<rparr>)
           | c \<Rightarrow> (c, dirs, s\<lparr>trace := trace s @ files_events root files\<rparr>))"
  by (simp add: loop_body_def files_loop_frame logging_log_def emit_def
        split: control.splits exn.splits)

lemma walk_Entries:
  "walk top_path (Entries es) s =
     (case loop_body top_path (dirs_of es) (files_of es)
             (s\<lparr>trace := trace s @ [Yield top_path (dirs_of es) (map fst (files_of es))]\<rparr>) of
        (c, dirs, s1) \<Rightarrow> if c = Return then (Return, s1) else walk_subdirs top_path dirs es s1)"
  by (simp add: emit_def)

lemma files_control_cases:
  "files_control root files = Continue \<or> files_control root files = Return
   \<or> (\<exists>e. files_control root files = Raise e)"
  by (cases "files_control root files") auto

lemma loop_body_cases [consumes 1, case_names skip denied failed finished]:
  assumes "loop_body root dirs files s = (c, dirs', s')"
  obtains
    (skip) "root \<in> inaccessible_dirs s" "c = Continue" "dirs' = []"
      "s' = s\<lparr>trace := trace s @ [Skip root]\<rparr>"
  | (denied) m where "root \<notin> inaccessible_dirs s"
      "files_control root files = Raise (PermissionError m)" "c = Continue" "dirs' = []"
      "s' = \<lparr>trace = trace s @ files_events root files @ [Log WARNING (permission_msg root)],
             inaccessible_dirs = insert root (inaccessible_dirs s)\<rparr>"
  | (failed) e where "root \<notin> inaccessible_dirs s" "files_control root files = Raise e"
      "\<forall>m. e \<noteq> PermissionError m" "c = Continue" "dirs' = dirs"
      "s' = s\<lparr>trace := trace s @ files_events root files @ [Log ERROR (traversal_msg root e)]\<rparr>"
  | (finished) "root \<notin> inaccessible_dirs s" "files_control root files = c"
      "c = Continue \<or> c = Return" "dirs' = dirs"
      "s' = s\<lparr>trace := trace s @ files_events root files\<rparr>"
proof (cases "root \<in> inaccessible_dirs s")
  case True
  with assms skip show ?thesis by (simp add: loop_body_eq)
next
  case notin: False
  show ?thesis
  proof (cases "files_control root files")
    case Continue
    with assms notin finished show ?thesis by (simp add: loop_body_eq)
  next
    case Return
    with assms notin finished show ?thesis by (simp add: loop_body_eq)
  next
    case (Raise e)
    show ?thesis
    proof (cases e)
      case (PermissionError m)
      with assms notin Raise denied show ?thesis by (simp add: loop_body_eq)
    next
      case (FileNotFoundError m)
      with assms notin Raise failed [of e] show ?thesis by (simp add: loop_body_eq)
    next
      case (OtherException m)
      with assms notin Raise failed [of e] show ?thesis by (simp add: loop_body_eq)
    qed
  qed
qed

text \<open>An invariant of the loop body is an invariant of the walk.\<close>

lemma walk_invariant:
  fixes P R :: "state \<Rightarrow> bool"
  assumes failed: "\<And>s p e. P s \<Longrightarrow> P (emit (ScandirFailed p e) s)"
    and body: "\<And>s root dirs files c dirs' s'. P s \<Longrightarrow>
                 loop_body root dirs files (emit (Yield root dirs (map fst files)) s) = (c, dirs', s') \<Longrightarrow>
                 (if c = Return then R s' else P s')"
  shows "P s \<Longrightarrow> walk top_path r s = (c, s') \<Longrightarrow> (if c = Return then R s' else P s')"
    and "P s \<Longrightarrow> walk_subdirs top_path dirs es s = (c, s') \<Longrightarrow>
           (if c = Return then R s' else P s')"
proof (induction top_path r s and top_path dirs es s arbitrary: c s' and c s'
       rule: walk_walk_subdirs.induct)
  case (1 top_path e s)
  then show ?case using failed by auto
next
  case (2 top_path es s)
  let ?s0 = "emit (Yield top_path (dirs_of es) (map fst (files_of es))) s"
  obtain c1 dirs1 s1 where lb: "loop_body top_path (dirs_of es) (files_of es) ?s0 = (c1, dirs1, s1)"
    by (cases "loop_body top_path (dirs_of es) (files_of es) ?s0") auto
  have B: "if c1 = Return then R s1 else P s1" using body [OF "2.prems"(1) lb] .
  show ?case
  proof (cases "c1 = Return")
    case True
    with "2.prems"(2) lb B show ?thesis by simp
  next
    case False
    with "2.prems"(2) lb have w: "walk_subdirs top_path dirs1 es s1 = (c, s')" by simp
    from False B have "P s1" by simp
    from "2.IH" [OF lb [symmetric] refl False this w] show ?thesis .
  qed
next
  case (3 top_path dirs s)
  then show ?case by auto
next
  case (4 top_path dirs name f rest s)
  then show ?case by simp
next
  case (5 top_path dirs name link r rest s)
  show ?case
  proof (cases "name \<notin> set dirs \<or> link")
    case True
    with "5.prems" "5.IH"(1) show ?thesis by simp
  next
    case False
    obtain c1 s1 where w1: "walk (path_join top_path name) r s = (c1, s1)"
      by (cases "walk (path_join top_path name) r s") auto
    have B: "if c1 = Return then R s1 else P s1"
      using "5.IH"(2) [OF False "5.prems"(1) w1] .
    show ?thesis
    proof (cases "c1 = Return")
      case True
      with "5.prems"(2) False w1 B show ?thesis by simp
    next
      case nr: False
      with "5.prems"(2) False w1 have w: "walk_subdirs top_path dirs rest s1 = (c, s')" by simp
      from nr B have "P s1" by simp
      from "5.IH"(3) [OF False w1 [symmetric] nr this w] show ?thesis .
    qed
  qed
qed

lemma quiet_Nil [simp]: "quiet []"
  by (simp add: quiet_def)

lemma quiet_append [simp]: "quiet (a @ b) = (quiet a \<and> quiet b)"
  by (auto simp: quiet_def)

lemma quiet_Cons [simp]:
  "quiet (e # t) = (\<not> run_not_found e \<and> e \<noteq> Log ERROR not_found_msg \<and> quiet t)"
  by (auto simp: quiet_def)

lemma aborted_prepend: "quiet a \<Longrightarrow> aborted b \<Longrightarrow> aborted (a @ b)"
proof -
  assume a: "quiet a" and "aborted b"
  then obtain pre argv opts m where p: "quiet pre"
    "b = pre @ [Run argv opts (RunRaises (FileNotFoundError m)), Log ERROR not_found_msg]"
    unfolding aborted_def by blast
  have "quiet (a @ pre)" using a p(1) by simp
  moreover have "a @ b = (a @ pre) @ [Run argv opts (RunRaises (FileNotFoundError m)), Log ERROR not_found_msg]"
    using p(2) by simp
  ultimately show ?thesis unfolding aborted_def by blast
qed

lemma not_found_msg_neq [simp]:
  "scan_error_msg p rc \<noteq> not_found_msg" "stderr_msg err \<noteq> not_found_msg"
  "unexpected_msg p e \<noteq> not_found_msg" "traversal_msg root e \<noteq> not_found_msg"
  by (simp_all add: scan_error_msg_def stderr_msg_def unexpected_msg_def traversal_msg_def
        not_found_msg_def)

lemma scan_events_quiet:
  "scan_control p r \<noteq> Return \<Longrightarrow> quiet (scan_events p r)"
proof (cases r)
  case (CompletedProcess rc out err)
  then show ?thesis by (simp add: scan_events_completed)
next
  case (RunRaises e)
  assume "scan_control p r \<noteq> Return"
  with RunRaises show ?thesis by (cases e) (simp_all add: scan_events_raises)
qed

lemma scan_events_aborted:
  "scan_control p r = Return \<Longrightarrow> aborted (scan_events p r)"
proof (cases r)
  case (CompletedProcess rc out err)
  assume "scan_control p r = Return"
  with CompletedProcess show ?thesis by simp
next
  case (RunRaises e)
  assume c: "scan_control p r = Return"
  with RunRaises obtain m where e: "e = FileNotFoundError m" by (cases e) simp_all
  have "scan_events p r = [] @ [Run (clamscan_command p) clamscan_options (RunRaises (FileNotFoundError m)),
      Log ERROR not_found_msg]"
    using RunRaises e by (simp add: scan_events_raises)
  then show ?thesis unfolding aborted_def using quiet_Nil by blast
qed

lemma files_obtain:
  obtains n fault isf r where "(a :: string \<times> file_env) = (n, FileEnv fault isf r)"
  by (cases a, rename_tac n f, case_tac f) auto

lemma files_events_quiet_aborted:
  "(files_control root files \<noteq> Return \<longrightarrow> quiet (files_events root files)) \<and>
   (files_control root files = Return \<longrightarrow> aborted (files_events root files))"
proof (induction files)
  case Nil
  show ?case by simp
next
  case (Cons a files)
  obtain n fault isf r where a: "a = (n, FileEnv fault isf r)" by (rule files_obtain)
  show ?case
  proof (cases fault)
    case (Some e)
    with a show ?thesis by simp
  next
    case None
    show ?thesis
    proof (cases isf)
      case False
      have "aborted (files_events root files) \<Longrightarrow>
            aborted ([IsFile (path_join root n) False] @ files_events root files)"
        by (rule aborted_prepend) simp
      with a None False Cons show ?thesis by simp
    next
      case True
      let ?p = "path_join root n"
      show ?thesis
      proof (cases "scan_control ?p r = Continue")
        case cont: True
        then have q: "quiet (IsFile ?p True # scan_events ?p r)"
          by (simp add: scan_events_quiet)
        have "aborted (files_events root files) \<Longrightarrow>
              aborted ((IsFile ?p True # scan_events ?p r) @ files_events root files)"
          using q by (rule aborted_prepend)
        with a None True cont Cons q show ?thesis by simp
      next
        case stop: False
        show ?thesis
        proof (cases "scan_control ?p r = Return")
          case ret: True
          have "aborted ([IsFile ?p True] @ scan_events ?p r)"
            by (rule aborted_prepend) (simp_all add: scan_events_aborted ret)
          with a None True stop ret show ?thesis by simp
        next
          case nret: False
          with a None True stop show ?thesis by (simp add: scan_events_quiet)
        qed
      qed
    qed
  qed
qed

lemma loop_body_quiet_aborted:
  assumes "quiet (trace s)"
    and "loop_body root dirs files (emit (Yield root dirs (map fst files)) s) = (c, dirs', s')"
  shows "if c = Return then aborted (trace s') else quiet (trace s')"
  using assms(2)
proof (cases rule: loop_body_cases)
  case skip
  with assms(1) show ?thesis by simp
next
  case (denied m)
  with assms(1) files_events_quiet_aborted [of root files] show ?thesis by simp
next
  case (failed e)
  with assms(1) files_events_quiet_aborted [of root files] show ?thesis by simp
next
  case finished
  show ?thesis
  proof (cases "c = Return")
    case True
    with finished files_events_quiet_aborted [of root files]
    have "aborted (files_events root files)" by simp
    then have "aborted ((trace s @ [Yield root dirs (map fst files)]) @ files_events root files)"
      using assms(1) by (intro aborted_prepend) simp_all
    with True finished show ?thesis by simp
  next
    case False
    with assms(1) finished files_events_quiet_aborted [of root files] show ?thesis by simp
  qed
qed

lemma walk_quiet_aborted:
  assumes "quiet (trace s)" and "walk top_path r s = (c, s')"
  shows "if c = Return then aborted (trace s') else quiet (trace s')"
  by (rule walk_invariant(1) [where P = "\<lambda>s. quiet (trace s)" and R = "\<lambda>s. aborted (trace s)",
        OF _ _ assms])
     (simp_all add: loop_body_quiet_aborted)

lemma audit_quiet_or_aborted:
  "quiet (trace (audit_files_with_clamav w start_path))
   \<or> aborted (trace (audit_files_with_clamav w start_path))"
proof (cases "os_path_isdir w start_path")
  case False
  then show ?thesis
    by (simp add: audit_files_with_clamav_def logging_log_def init_state_def
          invalid_root_msg_def not_found_msg_def)
next
  case True
  let ?s0 = "logging_log INFO (''Starting ClamAV audit of: '' @ start_path) init_state"
  obtain c s' where w: "walk start_path (os_scandir w) ?s0 = (c, s')"
    by (cases "walk start_path (os_scandir w) ?s0") auto
  have "quiet (trace ?s0)" by (simp add: logging_log_def init_state_def)
  from walk_quiet_aborted [OF this w] True w show ?thesis
    by (auto simp: audit_files_with_clamav_def logging_log_def)
qed

lemma no_scanner_run:
  "audit_files_with_clamav \<lparr>os_path_isdir = (\<lambda>p. True), os_scandir = no_scanner\<rparr> ''/data'' =
    \<lparr>trace =
      [Log INFO ''Starting ClamAV audit of: /data'',
       Yield ''/data'' [''sub''] [''a.txt'', ''b.exe''],
       IsFile ''/data/a.txt'' True,
       Run [''clamscan'', ''--no-summary'', ''/data/a.txt''] clamscan_options
         (RunRaises (FileNotFoundError ''[Errno 2] No such file or directory: clamscan'')),
       Log ERROR not_found_msg],
     inaccessible_dirs = {}\<rparr>"
  by (simp add: audit_files_with_clamav_def no_scanner_def walk_Entries loop_body_eq
        scan_events_raises logging_log_def emit_def init_state_def path_join_def
        clamscan_command_def)

lemma guarded_Nil [simp]: "guarded []"
  by (simp add: guarded_def)

lemma guarded_append: 
  assumes "guarded a" "guarded b" shows "guarded (a @ b)"
  unfolding guarded_def
proof (intro allI impI)
  fix i argv opts r
  assume i: "i < length (a @ b)" and run: "(a @ b) ! i = Run argv opts r"
  show "opts = clamscan_options \<and> 0 < i \<and>
        (\<exists>p. argv = clamscan_command p \<and> (a @ b) ! (i - 1) = IsFile p True)"
  proof (cases "i < length a")
    case True
    with run have "a ! i = Run argv opts r" by (simp add: nth_append)
    with assms(1) True obtain p where "opts = clamscan_options" "0 < i"
      "argv = clamscan_command p" "a ! (i - 1) = IsFile p True"
      unfolding guarded_def by blast
    moreover have "i - 1 < length a" using True by arith
    then have "(a @ b) ! (i - 1) = a ! (i - 1)" by (simp only: nth_append if_True)
    ultimately show ?thesis by auto
  next
    case False
    let ?j = "i - length a"
    from False i have j: "?j < length b" by simp
    from False run have "b ! ?j = Run argv opts r" by (simp add: nth_append)
    with assms(2) j obtain p where p: "opts = clamscan_options" "0 < ?j"
      "argv = clamscan_command p" "b ! (?j - 1) = IsFile p True"
      unfolding guarded_def by blast
    from p(2) have "\<not> i - 1 < length a" and "i - 1 - length a = ?j - 1" by arith+
    then have "(a @ b) ! (i - 1) = b ! (?j - 1)" by (simp only: nth_append if_False)
    with p show ?thesis by auto
  qed
qed


lemma guarded_single: "(\<And>argv opts r. e \<noteq> Run argv opts r) \<Longrightarrow> guarded [e]"
  by (simp add: guarded_def)

lemma guarded_snoc: "guarded t \<Longrightarrow> (\<And>argv opts r. e \<noteq> Run argv opts r) \<Longrightarrow> guarded (t @ [e])"
  by (rule guarded_append) (simp_all add: guarded_single)

lemma guarded_pair: "guarded [IsFile p True, Run (clamscan_command p) clamscan_options r]"
  by (auto simp: guarded_def less_Suc_eq)

lemma scan_events_shape:
  "\<exists>logs. scan_events p r = Run (clamscan_command p) clamscan_options r # logs
      \<and> (\<forall>e\<in>set logs. \<exists>lvl msg. e = Log lvl msg)"
  by (cases r) (auto simp: scan_events_completed scan_events_raises)

lemma guarded_logs: "(\<forall>e\<in>set logs. \<exists>lvl msg. e = Log lvl msg) \<Longrightarrow> guarded logs"
proof (induction logs rule: rev_induct)
  case Nil
  show ?case by simp
next
  case (snoc x xs)
  then have "guarded xs" by simp
  moreover from snoc.prems obtain lvl msg where "x = Log lvl msg" by auto
  ultimately show ?case by (intro guarded_snoc) simp_all
qed

lemma guarded_scan: "guarded (IsFile p True # scan_events p r)"
proof -
  obtain logs where l: "scan_events p r = Run (clamscan_command p) clamscan_options r # logs"
    "\<forall>e\<in>set logs. \<exists>lvl msg. e = Log lvl msg"
    using scan_events_shape by blast
  have "guarded ([IsFile p True, Run (clamscan_command p) clamscan_options r] @ logs)"
    by (rule guarded_append [OF guarded_pair guarded_logs [OF l(2)]])
  with l(1) show ?thesis by simp
qed

lemma files_events_guarded: "guarded (files_events root files)"
proof (induction files)
  case Nil
  show ?case by simp
next
  case (Cons a files)
  obtain n fault isf r where a: "a = (n, FileEnv fault isf r)" by (rule files_obtain)
  show ?case
  proof (cases fault)
    case (Some e)
    with a show ?thesis by simp
  next
    case None
    show ?thesis
    proof (cases isf)
      case False
      have "guarded ([IsFile (path_join root n) False] @ files_events root files)"
        by (rule guarded_append [OF guarded_single Cons.IH]) simp
      with a None False show ?thesis by simp
    next
      case True
      have "guarded ((IsFile (path_join root n) True # scan_events (path_join root n) r)
                     @ files_events root files)"
        by (rule guarded_append [OF guarded_scan Cons.IH])
      with a None True guarded_scan [of "path_join root n" r] show ?thesis by simp
    qed
  qed
qed

lemma loop_body_guarded:
  assumes "guarded (trace s)"
    and "loop_body root dirs files (emit (Yield root dirs (map fst files)) s) = (c, dirs', s')"
  shows "guarded (trace s')"
proof -
  have y: "guarded (trace s @ [Yield root dirs (map fst files)])"
    using assms(1) by (rule guarded_snoc) simp
  have f: "guarded ((trace s @ [Yield root dirs (map fst files)]) @ files_events root files)"
    by (rule guarded_append [OF y files_events_guarded])
  from assms(2) show ?thesis
  proof (cases rule: loop_body_cases)
    case skip
    have "guarded ((trace s @ [Yield root dirs (map fst files)]) @ [Skip root])"
      using y by (rule guarded_snoc) simp
    with skip show ?thesis by simp
  next
    case (denied m)
    have "guarded (((trace s @ [Yield root dirs (map fst files)]) @ files_events root files)
                   @ [Log WARNING (permission_msg root)])"
      using f by (rule guarded_snoc) simp
    with denied show ?thesis by simp
  next
    case (failed e)
    have "guarded (((trace s @ [Yield root dirs (map fst files)]) @ files_events root files)
                   @ [Log ERROR (traversal_msg root e)])"
      using f by (rule guarded_snoc) simp
    with failed show ?thesis by simp
  next
    case finished
    with f show ?thesis by simp
  qed
qed

lemma walk_guarded:
  assumes "guarded (trace s)" and "walk top_path r s = (c, s')"
  shows "guarded (trace s')"
proof -
  have "if c = Return then guarded (trace s') else guarded (trace s')"
    by (rule walk_invariant(1) [where P = "\<lambda>s. guarded (trace s)" and R = "\<lambda>s. guarded (trace s)",
          OF _ _ assms])
       (simp_all add: guarded_snoc loop_body_guarded)
  then show ?thesis by simp
qed

lemma audit_guarded: "guarded (trace (audit_files_with_clamav w start_path))"
proof (cases "os_path_isdir w start_path")
  case False
  then show ?thesis
    by (simp add: audit_files_with_clamav_def logging_log_def init_state_def guarded_single)
next
  case True
  let ?s0 = "logging_log INFO (''Starting ClamAV audit of: '' @ start_path) init_state"
  obtain c s' where w: "walk start_path (os_scandir w) ?s0 = (c, s')"
    by (cases "walk start_path (os_scandir w) ?s0") auto
  have "guarded (trace ?s0)" by (simp add: logging_log_def init_state_def guarded_single)
  from walk_guarded [OF this w] have g: "guarded (trace s')" .
  then have "guarded (trace s' @ [Log INFO ''ClamAV audit completed.''])"
    by (rule guarded_snoc) simp
  with g True w show ?thesis
    by (simp add: audit_files_with_clamav_def logging_log_def)
qed

lemma scenario_run:
  "audit_files_with_clamav \<lparr>os_path_isdir = (\<lambda>p. True), os_scandir = scenario\<rparr> ''/data'' =
    \<lparr>trace =
      [Log INFO ''Starting ClamAV audit of: /data'',
       Yield ''/data'' [''locked''] [''a.txt'', ''b.exe''],
       IsFile ''/data/a.txt'' True,
       Run [''clamscan'', ''--no-summary'', ''/data/a.txt''] clamscan_options
         (CompletedProcess 0 [] []),
       Log INFO ''CLEAN: /data/a.txt'',
       IsFile ''/data/b.exe'' True,
       Run [''clamscan'', ''--no-summary'', ''/data/b.exe''] clamscan_options
         (CompletedProcess 1 (''/data/b.exe: Test.Signature FOUND'' @ [CHR 0x0A]) []),
       Log WARNING ''INFECTED: /data/b.exe'',
       Log WARNING ''  ClamAV Output: /data/b.exe: Test.Signature FOUND'',
       ScandirFailed ''/data/locked'' (PermissionError ''[Errno 13] Permission denied''),
       Log INFO ''ClamAV audit completed.''],
     inaccessible_dirs = {}\<rparr>"
  by (simp add: audit_files_with_clamav_def scenario_def walk_Entries loop_body_eq
        scan_events_completed logging_log_def emit_def init_state_def path_join_def
        clamscan_command_def clean_msg_def infected_msg_def output_msg_def strip_def
        py_isspace_def)

lemma mixed_run:
  "audit_files_with_clamav \<lparr>os_path_isdir = (\<lambda>p. True), os_scandir = mixed\<rparr> ''/data'' =
    \<lparr>trace =
      [Log INFO ''Starting ClamAV audit of: /data'',
       Yield ''/data'' [] [''pipe'', ''gone.tmp'', ''a.txt''],
       IsFile ''/data/pipe'' False,
       IsFile ''/data/gone.tmp'' False,
       IsFile ''/data/a.txt'' True,
       Run [''clamscan'', ''--no-summary'', ''/data/a.txt''] clamscan_options
         (CompletedProcess 0 [] []),
       Log INFO ''CLEAN: /data/a.txt'',
       Log INFO ''ClamAV audit completed.''],
     inaccessible_dirs = {}\<rparr>"
  by (simp add: audit_files_with_clamav_def mixed_def walk_Entries loop_body_eq
        scan_events_completed logging_log_def emit_def init_state_def path_join_def
        clamscan_command_def clean_msg_def)

lemma faulty_run:
  "audit_files_with_clamav \<lparr>os_path_isdir = (\<lambda>p. True), os_scandir = faulty\<rparr> ''/data'' =
    \<lparr>trace =
      [Log INFO ''Starting ClamAV audit of: /data'',
       Yield ''/data'' [''sub''] [''z.txt''],
       IsFile ''/data/z.txt'' True,
       Run [''clamscan'', ''--no-summary'', ''/data/z.txt''] clamscan_options
         (CompletedProcess 0 [] []),
       Log INFO ''CLEAN: /data/z.txt'',
       Yield ''/data/sub'' [''deep''] [''f''],
       Log WARNING ''Permission denied to access directory: /data/sub. Skipping this directory.'',
       Log INFO ''ClamAV audit completed.''],
     inaccessible_dirs = {''/data/sub''}\<rparr>"
  by (simp add: audit_files_with_clamav_def faulty_def walk_Entries loop_body_eq
        scan_events_completed logging_log_def emit_def init_state_def path_join_def
        clamscan_command_def clean_msg_def permission_msg_def)

lemma walk_subdirs_no_dirs: "walk_subdirs top_path [] es s = (Continue, s)"
proof (induction es)
  case Nil
  show ?case by simp
next
  case (Cons a es)
  obtain n e where a: "a = (n, e)" by (cases a)
  show ?case using a Cons by (cases e) simp_all
qed

lemma loop_body_mono:
  "loop_body root dirs files s = (c, dirs', s') \<Longrightarrow> inaccessible_dirs s \<subseteq> inaccessible_dirs s'"
  by (cases rule: loop_body_cases) auto

lemma walk_mono:
  assumes "walk top_path r s = (c, s')"
  shows "inaccessible_dirs s \<subseteq> inaccessible_dirs s'"
proof -
  have "if c = Return then inaccessible_dirs s \<subseteq> inaccessible_dirs s'
        else inaccessible_dirs s \<subseteq> inaccessible_dirs s'"
  proof (rule walk_invariant(1) [where P = "\<lambda>x. inaccessible_dirs s \<subseteq> inaccessible_dirs x"
          and R = "\<lambda>x. inaccessible_dirs s \<subseteq> inaccessible_dirs x", OF _ _ _ assms])
    fix x root dirs files c dirs' x'
    assume "inaccessible_dirs s \<subseteq> inaccessible_dirs x"
      and "loop_body root dirs files (emit (Yield root dirs (map fst files)) x) = (c, dirs', x')"
    with loop_body_mono [of root dirs files "emit (Yield root dirs (map fst files)) x" c dirs' x']
    show "if c = Return then inaccessible_dirs s \<subseteq> inaccessible_dirs x'
          else inaccessible_dirs s \<subseteq> inaccessible_dirs x'" by auto
  qed simp_all
  then show ?thesis by simp
qed

lemma found_here_step:
  assumes "found_here s" and "set (trace s) \<subseteq> set (trace s')"
    and "\<forall>d\<in>inaccessible_dirs s' - inaccessible_dirs s.
           (\<exists>dirs files. Yield d dirs files \<in> set (trace s')) \<and>
           Log WARNING (permission_msg d) \<in> set (trace s')"
  shows "found_here s'"
  unfolding found_here_def
proof
  fix d assume d: "d \<in> inaccessible_dirs s'"
  show "(\<exists>dirs files. Yield d dirs files \<in> set (trace s')) \<and>
        Log WARNING (permission_msg d) \<in> set (trace s')"
  proof (cases "d \<in> inaccessible_dirs s")
    case True
    with assms(1) obtain dirs files where "Yield d dirs files \<in> set (trace s)"
      "Log WARNING (permission_msg d) \<in> set (trace s)"
      unfolding found_here_def by blast
    with assms(2) show ?thesis by blast
  next
    case False
    with d assms(3) show ?thesis by blast
  qed
qed

lemma loop_body_found_here:
  assumes "found_here s"
    and "loop_body root dirs files (emit (Yield root dirs (map fst files)) s) = (c, dirs', s')"
  shows "found_here s'"
  using assms(2)
proof (cases rule: loop_body_cases)
  case skip
  show ?thesis by (rule found_here_step [OF assms(1)]) (auto simp: skip)
next
  case (denied m)
  show ?thesis
  proof (rule found_here_step [OF assms(1)])
    show "set (trace s) \<subseteq> set (trace s')" by (auto simp: denied)
    have "Yield root dirs (map fst files) \<in> set (trace s')" by (simp add: denied)
    moreover have "Log WARNING (permission_msg root) \<in> set (trace s')" by (simp add: denied)
    moreover have "inaccessible_dirs s' - inaccessible_dirs s \<subseteq> {root}" by (auto simp: denied)
    ultimately show "\<forall>d\<in>inaccessible_dirs s' - inaccessible_dirs s.
           (\<exists>dirs files. Yield d dirs files \<in> set (trace s')) \<and>
           Log WARNING (permission_msg d) \<in> set (trace s')" by blast
  qed
next
  case (failed e)
  show ?thesis by (rule found_here_step [OF assms(1)]) (auto simp: failed)
next
  case finished
  show ?thesis by (rule found_here_step [OF assms(1)]) (auto simp: finished)
qed

lemma walk_found_here:
  assumes "found_here s" and "walk top_path r s = (c, s')"
  shows "found_here s'"
proof -
  have "if c = Return then found_here s' else found_here s'"
    by (rule walk_invariant(1) [where P = found_here and R = found_here, OF _ _ assms])
       (auto simp: loop_body_found_here intro: found_here_step)
  then show ?thesis by simp
qed

lemma audit_found_here: "found_here (audit_files_with_clamav w start_path)"
proof (cases "os_path_isdir w start_path")
  case False
  then show ?thesis
    by (simp add: audit_files_with_clamav_def found_here_def init_state_def)
next
  case True
  let ?s0 = "logging_log INFO (''Starting ClamAV audit of: '' @ start_path) init_state"
  obtain c s' where w: "walk start_path (os_scandir w) ?s0 = (c, s')"
    by (cases "walk start_path (os_scandir w) ?s0") auto
  have "found_here ?s0" by (simp add: found_here_def init_state_def)
  from walk_found_here [OF this w] have "found_here s'" .
  then have "found_here (logging_log INFO ''ClamAV audit completed.'' s')"
    by (rule found_here_step) (auto simp: logging_log_def)
  with \<open>found_here s'\<close> True w show ?thesis
    by (simp add: audit_files_with_clamav_def)
qed

lemma path_join_base: "valid_name n \<Longrightarrow> p \<noteq> [] \<Longrightarrow> path_join p n = base p @ n"
  by (cases n) (auto simp: path_join_def base_def valid_name_def)

lemma path_join_nonempty: "valid_name n \<Longrightarrow> path_join p n \<noteq> []"
  by (cases n) (auto simp: path_join_def valid_name_def)

lemma path_join_last: "valid_name n \<Longrightarrow> p \<noteq> [] \<Longrightarrow> last (path_join p n) \<noteq> CHR ''/''"
proof -
  assume v: "valid_name n" and p: "p \<noteq> []"
  then have "last (path_join p n) = last n" by (simp add: path_join_base valid_name_def)
  moreover have "last n \<noteq> CHR ''/''"
    using v last_in_set [of n] unfolding valid_name_def by metis
  ultimately show ?thesis by simp
qed

lemma base_child: "valid_name n \<Longrightarrow> p \<noteq> [] \<Longrightarrow> base (path_join p n) = base p @ n @ ''/''"
proof -
  assume v: "valid_name n" and p: "p \<noteq> []"
  then have "last (path_join p n) \<noteq> CHR ''/''" by (rule path_join_last)
  then have "base (path_join p n) = path_join p n @ ''/''" by (simp add: base_def)
  then show ?thesis using v p by (simp add: path_join_base)
qed

lemma inside_self: "valid_name n \<Longrightarrow> p \<noteq> [] \<Longrightarrow> inside p n (path_join p n)"
  by (simp add: inside_def path_join_base)

lemma inside_child:
  "valid_name n \<Longrightarrow> p \<noteq> [] \<Longrightarrow> inside (path_join p n) n' q \<Longrightarrow> inside p n q"
  by (auto simp: inside_def base_child)

lemma name_takeWhile:
  assumes "valid_name n" "rest = [] \<or> hd rest = CHR ''/''"
  shows "takeWhile (\<lambda>c. c \<noteq> CHR ''/'') (n @ rest) = n"
proof -
  have "takeWhile (\<lambda>c. c \<noteq> CHR ''/'') rest = []"
    using assms(2) by (cases rest) auto
  moreover have "\<And>x. x \<in> set n \<Longrightarrow> x \<noteq> CHR ''/''"
    using assms(1) by (auto simp: valid_name_def)
  ultimately show ?thesis by (simp add: takeWhile_append2)
qed

lemma inside_unique:
  assumes "inside p n q" "inside p n' q" "valid_name n" "valid_name n'"
  shows "n = n'"
proof -
  from assms(1) obtain rest where r: "q = base p @ n @ rest" "rest = [] \<or> hd rest = CHR ''/''"
    unfolding inside_def by blast
  from assms(2) obtain rest' where r': "q = base p @ n' @ rest'" "rest' = [] \<or> hd rest' = CHR ''/''"
    unfolding inside_def by blast
  from r(1) r'(1) have "n @ rest = n' @ rest'" by simp
  then have "takeWhile (\<lambda>c. c \<noteq> CHR ''/'') (n @ rest) = takeWhile (\<lambda>c. c \<noteq> CHR ''/'') (n' @ rest')"
    by simp
  then show ?thesis
    using name_takeWhile [OF assms(3) r(2)] name_takeWhile [OF assms(4) r'(2)] by simp
qed

lemma inside_neq:
  assumes "inside p n q" "valid_name n" shows "q \<noteq> p"
proof
  assume "q = p"
  from assms(1) obtain rest where "q = base p @ n @ rest"
    unfolding inside_def by blast
  with \<open>q = p\<close> have r: "p = base p @ n @ rest" by simp
  have "length p = length (base p @ n @ rest)" using r by simp
  then have "length p = length (base p) + length n + length rest" by simp
  moreover have "0 < length n" using assms(2) by (simp add: valid_name_def)
  moreover have "length p \<le> length (base p)" by (simp add: base_def)
  ultimately show False by arith
qed


lemma wf_entries_valid: "wf_entries es \<Longrightarrow> (n, e) \<in> set es \<Longrightarrow> valid_name n"
proof (induction es)
  case Nil
  then show ?case by simp
next
  case (Cons a es)
  obtain n' e' where a: "a = (n', e')" by (cases a)
  show ?case
  proof (cases e')
    case (NonDir f)
    with a Cons show ?thesis by auto
  next
    case (SubDir l r)
    with a Cons show ?thesis by auto
  qed
qed

lemma files_of_mem: "(n, f) \<in> set (files_of es) \<Longrightarrow> (n, NonDir f) \<in> set es"
  by (induction es rule: files_of.induct) auto

lemma dirs_of_mem: "n \<in> set (dirs_of es) \<Longrightarrow> \<exists>l r. (n, SubDir l r) \<in> set es"
  by (induction es rule: dirs_of.induct) auto

lemma files_of_fst: "n \<in> set (map fst (files_of es)) \<Longrightarrow> n \<in> set (map fst es)"
  by (induction es rule: files_of.induct) auto

lemma dirs_of_fst: "n \<in> set (dirs_of es) \<Longrightarrow> n \<in> set (map fst es)"
  by (induction es rule: dirs_of.induct) auto

lemma distinct_files_of: "distinct (map fst es) \<Longrightarrow> distinct (map fst (files_of es))"
proof (induction es rule: files_of.induct)
  case 1
  show ?case by simp
next
  case (2 name f es)
  then have "name \<notin> set (map fst es)" and "distinct (map fst (files_of es))" by simp_all
  with files_of_fst [of name es] show ?case by auto
next
  case (3 name l r es)
  then show ?case by simp
qed

lemma distinct_dirs_of: "distinct (map fst es) \<Longrightarrow> distinct (dirs_of es)"
proof (induction es rule: dirs_of.induct)
  case 1
  show ?case by simp
next
  case (2 name l r es)
  then have "name \<notin> set (map fst es)" and "distinct (dirs_of es)" by simp_all
  with dirs_of_fst [of name es] show ?case by auto
next
  case (3 name f es)
  then show ?case by simp
qed

lemma files_dirs_disjoint:
  "distinct (map fst es) \<Longrightarrow> set (map fst (files_of es)) \<inter> set (dirs_of es) = {}"
proof (induction es rule: files_of.induct)
  case 1
  show ?case by simp
next
  case (2 name f es)
  then have "name \<notin> set (map fst es)"
    and "set (map fst (files_of es)) \<inter> set (dirs_of es) = {}" by simp_all
  with dirs_of_fst [of name es] show ?case by auto
next
  case (3 name l r es)
  then have "name \<notin> set (map fst es)"
    and "set (map fst (files_of es)) \<inter> set (dirs_of es) = {}" by simp_all
  with files_of_fst [of name es] show ?case by auto
qed

lemma files_of_valid: "wf_entries es \<Longrightarrow> n \<in> set (map fst (files_of es)) \<Longrightarrow> valid_name n"
proof -
  assume we: "wf_entries es" and "n \<in> set (map fst (files_of es))"
  then obtain f where "(n, f) \<in> set (files_of es)" by auto
  then have "(n, NonDir f) \<in> set es" by (rule files_of_mem)
  with we show ?thesis by (rule wf_entries_valid)
qed

lemma dirs_of_valid: "wf_entries es \<Longrightarrow> n \<in> set (dirs_of es) \<Longrightarrow> valid_name n"
proof -
  assume we: "wf_entries es" and "n \<in> set (dirs_of es)"
  then obtain l r where "(n, SubDir l r) \<in> set es" using dirs_of_mem by blast
  with we show ?thesis by (rule wf_entries_valid)
qed

lemma paths_inside:
  "wf_listing r \<Longrightarrow> p \<noteq> [] \<Longrightarrow> q \<in> set (paths p r) \<Longrightarrow>
     q = p \<or> (\<exists>n. valid_name n \<and> inside p n q)"
  "wf_entries es \<Longrightarrow> p \<noteq> [] \<Longrightarrow> q \<in> set (subdir_paths p es) \<Longrightarrow>
     \<exists>n\<in>set (dirs_of es). valid_name n \<and> inside p n q"
proof (induction p r and p es arbitrary: q and q rule: paths_subdir_paths.induct)
  case (1 top_path e)
  then show ?case by simp
next
  case (2 top_path es)
  from "2.prems"(3) consider "q = top_path"
    | n where "n \<in> set (map fst (files_of es))" "q = path_join top_path n"
    | "q \<in> set (subdir_paths top_path es)" by auto
  then show ?case
  proof cases
    case 1
    then show ?thesis by simp
  next
    case 2
    from "2.prems"(1) have "wf_entries es" by simp
    from files_of_valid [OF this 2(1)] have v: "valid_name n" .
    from inside_self [OF v "2.prems"(2)] 2(2) v show ?thesis by blast
  next
    case 3
    from "2.prems"(1) have "wf_entries es" by simp
    from "2.IH" [OF this "2.prems"(2) 3] show ?thesis by blast
  qed
next
  case (3 top_path)
  then show ?case by simp
next
  case (4 top_path n f es)
  then show ?case by simp
next
  case (5 top_path n l r es)
  from "5.prems"(1) have v: "valid_name n" and wr: "wf_listing r" and we: "wf_entries es"
    by simp_all
  from "5.prems"(3) consider "q \<in> set (paths (path_join top_path n) r)"
    | "q \<in> set (subdir_paths top_path es)" by auto
  then show ?case
  proof cases
    case 1
    have ne: "path_join top_path n \<noteq> []" using v by (rule path_join_nonempty)
    from "5.IH"(1) [OF wr ne 1]
    have "q = path_join top_path n \<or> (\<exists>n'. valid_name n' \<and> inside (path_join top_path n) n' q)" .
    then have "inside top_path n q"
      using inside_self [OF v "5.prems"(2)] inside_child [OF v "5.prems"(2)] by blast
    with v show ?thesis by auto
  next
    case 2
    from "5.IH"(2) [OF we "5.prems"(2) 2] show ?thesis by auto
  qed
qed

lemma paths_distinct:
  "wf_listing r \<Longrightarrow> p \<noteq> [] \<Longrightarrow> distinct (paths p r)"
  "wf_entries es \<Longrightarrow> distinct (dirs_of es) \<Longrightarrow> p \<noteq> [] \<Longrightarrow> distinct (subdir_paths p es)"
proof (induction p r and p es rule: paths_subdir_paths.induct)
  case (1 top_path e)
  show ?case by simp
next
  case (2 top_path es)
  from "2.prems"(1) have d: "distinct (map fst es)" and we: "wf_entries es" by simp_all
  let ?N = "map fst (files_of es)"
  let ?F = "map (path_join top_path) ?N"
  have finside: "\<exists>n\<in>set ?N. valid_name n \<and> inside top_path n q" if "q \<in> set ?F" for q
  proof -
    from that obtain n where n: "n \<in> set ?N" "q = path_join top_path n" by auto
    from files_of_valid [OF we n(1)] have v: "valid_name n" .
    from inside_self [OF v "2.prems"(2)] n v show ?thesis by blast
  qed
  have dinside: "\<exists>n\<in>set (dirs_of es). valid_name n \<and> inside top_path n q"
    if "q \<in> set (subdir_paths top_path es)" for q
    using paths_inside(2) [OF we "2.prems"(2) that] .
  have t1: "top_path \<notin> set ?F"
  proof
    assume "top_path \<in> set ?F"
    from finside [OF this] obtain n where "valid_name n" "inside top_path n top_path" by blast
    from inside_neq [OF this(2) this(1)] show False by simp
  qed
  have t2: "top_path \<notin> set (subdir_paths top_path es)"
  proof
    assume "top_path \<in> set (subdir_paths top_path es)"
    from dinside [OF this] obtain n where "valid_name n" "inside top_path n top_path" by blast
    from inside_neq [OF this(2) this(1)] show False by simp
  qed
  have dF: "distinct ?F"
  proof -
    have "inj_on (path_join top_path) (set ?N)"
    proof (rule inj_onI)
      fix n n' assume n: "n \<in> set ?N" and n': "n' \<in> set ?N"
        and eq: "path_join top_path n = path_join top_path n'"
      from files_of_valid [OF we n] have vn: "valid_name n" .
      from files_of_valid [OF we n'] have vn': "valid_name n'" .
      from eq show "n = n'"
        by (simp add: path_join_base [OF vn "2.prems"(2)] path_join_base [OF vn' "2.prems"(2)])
    qed
    with distinct_files_of [OF d] show ?thesis
      unfolding distinct_map [of "path_join top_path" "map fst (files_of es)"] by blast
  qed
  have dS: "distinct (subdir_paths top_path es)"
    using "2.IH" [OF we distinct_dirs_of [OF d] "2.prems"(2)] .
  have disj: "set ?F \<inter> set (subdir_paths top_path es) = {}"
  proof (rule ccontr)
    assume "set ?F \<inter> set (subdir_paths top_path es) \<noteq> {}"
    then obtain q where q: "q \<in> set ?F" "q \<in> set (subdir_paths top_path es)" by blast
    from finside [OF q(1)] obtain n where n: "n \<in> set ?N" "valid_name n"
      "inside top_path n q" by blast
    from dinside [OF q(2)] obtain n' where n': "n' \<in> set (dirs_of es)" "valid_name n'"
      "inside top_path n' q" by blast
    from inside_unique [OF n(3) n'(3) n(2) n'(2)] have "n = n'" .
    with n(1) n'(1) files_dirs_disjoint [OF d] show False by blast
  qed
  from t1 t2 dF dS disj show ?case by simp
next
  case (3 top_path)
  show ?case by simp
next
  case (4 top_path n f es)
  then show ?case by simp
next
  case (5 top_path n l r es)
  from "5.prems"(1) have v: "valid_name n" and wr: "wf_listing r" and we: "wf_entries es"
    by simp_all
  from "5.prems"(2) have nd: "n \<notin> set (dirs_of es)" and dd: "distinct (dirs_of es)" by simp_all
  have ne: "path_join top_path n \<noteq> []" using v by (rule path_join_nonempty)
  have d1: "distinct (paths (path_join top_path n) r)" using "5.IH"(1) [OF wr ne] .
  have d2: "distinct (subdir_paths top_path es)" using "5.IH"(2) [OF we dd "5.prems"(3)] .
  have disj: "set (paths (path_join top_path n) r) \<inter> set (subdir_paths top_path es) = {}"
  proof (rule ccontr)
    assume "set (paths (path_join top_path n) r) \<inter> set (subdir_paths top_path es) \<noteq> {}"
    then obtain q where q: "q \<in> set (paths (path_join top_path n) r)"
      "q \<in> set (subdir_paths top_path es)" by blast
    from paths_inside(1) [OF wr ne q(1)]
    have i1: "inside top_path n q"
      using inside_self [OF v "5.prems"(3)] inside_child [OF v "5.prems"(3)] by blast
    from paths_inside(2) [OF we "5.prems"(3) q(2)] obtain n' where
      n': "n' \<in> set (dirs_of es)" "valid_name n'" "inside top_path n' q" by blast
    from inside_unique [OF i1 n'(3) v n'(2)] have "n = n'" .
    with nd n'(1) show False by simp
  qed
  from d1 d2 disj show ?case by simp
qed

lemma scan_events_no_skip: "e \<in> set (scan_events p r) \<Longrightarrow> \<not> is_skip e"
proof -
  assume e: "e \<in> set (scan_events p r)"
  obtain logs where l: "scan_events p r = Run (clamscan_command p) clamscan_options r # logs"
    "\<forall>e\<in>set logs. \<exists>lvl msg. e = Log lvl msg"
    using scan_events_shape by blast
  from e l(1) consider "e = Run (clamscan_command p) clamscan_options r" | "e \<in> set logs"
    by auto
  then show ?thesis
  proof cases
    case 1
    then show ?thesis by simp
  next
    case 2
    with l(2) obtain lvl msg where "e = Log lvl msg" by blast
    then show ?thesis by simp
  qed
qed

lemma files_events_no_skip: "e \<in> set (files_events root files) \<Longrightarrow> \<not> is_skip e"
proof (induction files)
  case Nil
  then show ?case by simp
next
  case (Cons a files)
  obtain n fault isf r where a: "a = (n, FileEnv fault isf r)" by (rule files_obtain)
  show ?case
  proof (cases fault)
    case (Some x)
    with a Cons.prems show ?thesis by simp
  next
    case None
    show ?thesis
    proof (cases isf)
      case False
      with a None Cons show ?thesis by auto
    next
      case True
      with a None Cons scan_events_no_skip [of e "path_join root n" r] show ?thesis
        by (auto split: if_splits)
    qed
  qed
qed

lemma loop_body_no_skip:
  assumes "loop_body root dirs files s = (c, dirs', s')"
    and "root \<notin> inaccessible_dirs s" and "\<forall>e\<in>set (trace s). \<not> is_skip e"
  shows "(\<forall>e\<in>set (trace s'). \<not> is_skip e) \<and> inaccessible_dirs s' \<subseteq> insert root (inaccessible_dirs s)"
  using assms(1)
proof (cases rule: loop_body_cases)
  case skip
  with assms(2) show ?thesis by simp
next
  case (denied m)
  with assms(3) files_events_no_skip [of _ root files] show ?thesis by auto
next
  case (failed e)
  with assms(3) files_events_no_skip [of _ root files] show ?thesis by auto
next
  case finished
  with assms(3) files_events_no_skip [of _ root files] show ?thesis by auto
qed

lemma walk_no_skip:
  "walk top_path r s = (c, s') \<Longrightarrow> distinct (paths top_path r) \<Longrightarrow>
     inaccessible_dirs s \<inter> set (paths top_path r) = {} \<Longrightarrow>
     \<forall>e\<in>set (trace s). \<not> is_skip e \<Longrightarrow>
     (\<forall>e\<in>set (trace s'). \<not> is_skip e) \<and>
     inaccessible_dirs s' \<subseteq> inaccessible_dirs s \<union> set (paths top_path r)"
  "walk_subdirs top_path dirs es s = (c, s') \<Longrightarrow> distinct (subdir_paths top_path es) \<Longrightarrow>
     inaccessible_dirs s \<inter> set (subdir_paths top_path es) = {} \<Longrightarrow>
     \<forall>e\<in>set (trace s). \<not> is_skip e \<Longrightarrow>
     (\<forall>e\<in>set (trace s'). \<not> is_skip e) \<and>
     inaccessible_dirs s' \<subseteq> inaccessible_dirs s \<union> set (subdir_paths top_path es)"
proof (induction top_path r s and top_path dirs es s arbitrary: c s' and c s'
       rule: walk_walk_subdirs.induct)
  case (1 top_path e s)
  then show ?case by auto
next
  case (2 top_path es s)
  let ?s0 = "emit (Yield top_path (dirs_of es) (map fst (files_of es))) s"
  obtain c1 dirs1 s1 where lb: "loop_body top_path (dirs_of es) (files_of es) ?s0 = (c1, dirs1, s1)"
    by (cases "loop_body top_path (dirs_of es) (files_of es) ?s0") auto
  have notin: "top_path \<notin> inaccessible_dirs ?s0" using "2.prems"(3) by auto
  have ns0: "\<forall>e\<in>set (trace ?s0). \<not> is_skip e" using "2.prems"(4) by auto
  from loop_body_no_skip [OF lb notin ns0]
  have ns1: "\<forall>e\<in>set (trace s1). \<not> is_skip e"
    and i1: "inaccessible_dirs s1 \<subseteq> insert top_path (inaccessible_dirs s)" by simp_all
  show ?case
  proof (cases "c1 = Return")
    case True
    with "2.prems"(1) lb have "s' = s1" by simp
    with ns1 i1 show ?thesis by auto
  next
    case False
    with "2.prems"(1) lb have w: "walk_subdirs top_path dirs1 es s1 = (c, s')" by simp
    have ds: "distinct (subdir_paths top_path es)" using "2.prems"(2) by simp
    have tn: "top_path \<notin> set (subdir_paths top_path es)" using "2.prems"(2) by simp
    have dj: "inaccessible_dirs s1 \<inter> set (subdir_paths top_path es) = {}"
      using i1 tn "2.prems"(3) by auto
    from "2.IH" [OF lb [symmetric] refl False w ds dj ns1]
    have "(\<forall>e\<in>set (trace s'). \<not> is_skip e)"
      and "inaccessible_dirs s' \<subseteq> inaccessible_dirs s1 \<union> set (subdir_paths top_path es)"
      by simp_all
    with i1 show ?thesis by auto
  qed
next
  case (3 top_path dirs s)
  then show ?case by auto
next
  case (4 top_path dirs name f rest s)
  then show ?case by simp
next
  case (5 top_path dirs name link r rest s)
  let ?p = "path_join top_path name"
  have d1: "distinct (paths ?p r)" and d2: "distinct (subdir_paths top_path rest)"
    and dj: "set (paths ?p r) \<inter> set (subdir_paths top_path rest) = {}"
    using "5.prems"(2) by simp_all
  have i1: "inaccessible_dirs s \<inter> set (paths ?p r) = {}"
    and i2: "inaccessible_dirs s \<inter> set (subdir_paths top_path rest) = {}"
    using "5.prems"(3) by auto
  show ?case
  proof (cases "name \<notin> set dirs \<or> link")
    case True
    with "5.prems"(1) have w: "walk_subdirs top_path dirs rest s = (c, s')" by simp
    from "5.IH"(1) [OF True w d2 i2 "5.prems"(4)] show ?thesis by auto
  next
    case False
    obtain c1 s1 where w1: "walk ?p r s = (c1, s1)" by (cases "walk ?p r s") auto
    from "5.IH"(2) [OF False w1 d1 i1 "5.prems"(4)]
    have ns1: "\<forall>e\<in>set (trace s1). \<not> is_skip e"
      and s1: "inaccessible_dirs s1 \<subseteq> inaccessible_dirs s \<union> set (paths ?p r)" by simp_all
    show ?thesis
    proof (cases "c1 = Return")
      case True
      with "5.prems"(1) False w1 have "s' = s1" by simp
      with ns1 s1 show ?thesis by auto
    next
      case nr: False
      with "5.prems"(1) False w1 have w: "walk_subdirs top_path dirs rest s1 = (c, s')" by simp
      have j: "inaccessible_dirs s1 \<inter> set (subdir_paths top_path rest) = {}"
        using s1 i2 dj by auto
      from "5.IH"(3) [OF False w1 [symmetric] nr w d2 j ns1]
      have "(\<forall>e\<in>set (trace s'). \<not> is_skip e)"
        and "inaccessible_dirs s' \<subseteq> inaccessible_dirs s1 \<union> set (subdir_paths top_path rest)"
        by simp_all
      with s1 show ?thesis by auto
    qed
  qed
qed

lemma visited_append [simp]: "visited (a @ b) = visited a @ visited b"
  by (induction a rule: visited.induct) simp_all

lemma yielded_append [simp]: "yielded (a @ b) = yielded a @ yielded b"
  by (induction a rule: yielded.induct) simp_all

lemma scanned_append [simp]: "scanned (a @ b) = scanned a @ scanned b"
  by (induction a rule: scanned.induct) simp_all

lemma yielded_visited: "set (yielded t) \<subseteq> set (visited t)"
  by (induction t rule: visited.induct) auto

lemma scanned_visited: "set (scanned t) \<subseteq> set (visited t)"
  by (induction t rule: visited.induct) auto

lemma distinct_yielded: "distinct (visited t) \<Longrightarrow> distinct (yielded t)"
  using yielded_visited by (induction t rule: visited.induct) auto

lemma distinct_scanned: "distinct (visited t) \<Longrightarrow> distinct (scanned t)"
  using scanned_visited by (induction t rule: visited.induct) auto

lemma visited_scan_events [simp]: "visited (scan_events p r) = [p]"
proof -
  obtain logs where l: "scan_events p r = Run (clamscan_command p) clamscan_options r # logs"
    "\<forall>e\<in>set logs. \<exists>lvl msg. e = Log lvl msg"
    using scan_events_shape by blast
  have "visited logs = []" using l(2)
  proof (induction logs)
    case Nil
    show ?case by simp
  next
    case (Cons a logs)
    then obtain lvl msg where "a = Log lvl msg" by auto
    with Cons show ?case by simp
  qed
  with l(1) show ?thesis by (simp add: clamscan_command_def)
qed

lemma visited_files_events:
  "distinct (map (path_join root) (map fst files)) \<Longrightarrow>
     distinct (visited (files_events root files)) \<and>
     set (visited (files_events root files)) \<subseteq> set (map (path_join root) (map fst files))"
proof (induction files)
  case Nil
  show ?case by simp
next
  case (Cons a files)
  obtain n fault isf r where a: "a = (n, FileEnv fault isf r)" by (rule files_obtain)
  from Cons.prems a have nn: "path_join root n \<notin> set (map (path_join root) (map fst files))"
    and d: "distinct (map (path_join root) (map fst files))" by simp_all
  from Cons.IH [OF d] have IH: "distinct (visited (files_events root files))"
    "set (visited (files_events root files)) \<subseteq> set (map (path_join root) (map fst files))"
    by simp_all
  show ?case
  proof (cases fault)
    case (Some x)
    with a show ?thesis by simp
  next
    case None
    show ?thesis
    proof (cases isf)
      case False
      with a None IH show ?thesis by auto
    next
      case True
      with a None IH nn show ?thesis by auto
    qed
  qed
qed

lemma loop_body_visited:
  assumes "loop_body root dirs files (emit (Yield root dirs (map fst files)) s) = (c, dirs', s')"
    and "distinct (root # map (path_join root) (map fst files))"
  shows "\<exists>t. trace s' = trace s @ t \<and> distinct (visited t) \<and>
             set (visited t) \<subseteq> set (root # map (path_join root) (map fst files))"
proof -
  from assms(2) have d: "distinct (map (path_join root) (map fst files))"
    and rn: "root \<notin> set (map (path_join root) (map fst files))" by simp_all
  from visited_files_events [OF d]
  have v: "distinct (visited (files_events root files))"
    "set (visited (files_events root files)) \<subseteq> set (map (path_join root) (map fst files))"
    by simp_all
  let ?y = "Yield root dirs (map fst files)"
  from assms(1) show ?thesis
  proof (cases rule: loop_body_cases)
    case skip
    then have "trace s' = trace s @ [?y, Skip root]" by simp
    moreover have "distinct (visited [?y, Skip root])" by simp
    moreover have "set (visited [?y, Skip root]) \<subseteq> set (root # map (path_join root) (map fst files))"
      by simp
    ultimately show ?thesis by blast
  next
    case (denied m)
    let ?t = "?y # files_events root files @ [Log WARNING (permission_msg root)]"
    from denied have "trace s' = trace s @ ?t" by simp
    moreover have "distinct (visited ?t)" using v rn by auto
    moreover have "set (visited ?t) \<subseteq> set (root # map (path_join root) (map fst files))"
      using v by auto
    ultimately show ?thesis by blast
  next
    case (failed e)
    let ?t = "?y # files_events root files @ [Log ERROR (traversal_msg root e)]"
    from failed have "trace s' = trace s @ ?t" by simp
    moreover have "distinct (visited ?t)" using v rn by auto
    moreover have "set (visited ?t) \<subseteq> set (root # map (path_join root) (map fst files))"
      using v by auto
    ultimately show ?thesis by blast
  next
    case finished
    let ?t = "?y # files_events root files"
    from finished have "trace s' = trace s @ ?t" by simp
    moreover have "distinct (visited ?t)" using v rn by auto
    moreover have "set (visited ?t) \<subseteq> set (root # map (path_join root) (map fst files))"
      using v by auto
    ultimately show ?thesis by blast
  qed
qed

lemma walk_visited:
  "walk top_path r s = (c, s') \<Longrightarrow> distinct (paths top_path r) \<Longrightarrow>
     \<exists>t. trace s' = trace s @ t \<and> distinct (visited t) \<and>
         set (visited t) \<subseteq> set (paths top_path r)"
  "walk_subdirs top_path dirs es s = (c, s') \<Longrightarrow> distinct (subdir_paths top_path es) \<Longrightarrow>
     \<exists>t. trace s' = trace s @ t \<and> distinct (visited t) \<and>
         set (visited t) \<subseteq> set (subdir_paths top_path es)"
proof (induction top_path r s and top_path dirs es s arbitrary: c s' and c s'
       rule: walk_walk_subdirs.induct)
  case (1 top_path e s)
  then have "trace s' = trace s @ [ScandirFailed top_path e]" by auto
  moreover have "distinct (visited [ScandirFailed top_path e])" by simp
  moreover have "set (visited [ScandirFailed top_path e]) \<subseteq> set (paths top_path (ScandirRaises e))"
    by simp
  ultimately show ?case by blast
next
  case (2 top_path es s)
  let ?s0 = "emit (Yield top_path (dirs_of es) (map fst (files_of es))) s"
  let ?F = "map (path_join top_path) (map fst (files_of es))"
  obtain c1 dirs1 s1 where lb: "loop_body top_path (dirs_of es) (files_of es) ?s0 = (c1, dirs1, s1)"
    by (cases "loop_body top_path (dirs_of es) (files_of es) ?s0") auto
  have dF: "distinct (top_path # ?F)" using "2.prems"(2) by simp
  from loop_body_visited [OF lb dF] obtain t1 where t1: "trace s1 = trace s @ t1"
    "distinct (visited t1)" "set (visited t1) \<subseteq> set (top_path # ?F)" by blast
  show ?case
  proof (cases "c1 = Return")
    case True
    with "2.prems"(1) lb have "s' = s1" by simp
    with t1 show ?thesis by auto
  next
    case False
    with "2.prems"(1) lb have w: "walk_subdirs top_path dirs1 es s1 = (c, s')" by simp
    have ds: "distinct (subdir_paths top_path es)" using "2.prems"(2) by simp
    from "2.IH" [OF lb [symmetric] refl False w ds] obtain t2 where
      t2: "trace s' = trace s1 @ t2" "distinct (visited t2)"
      "set (visited t2) \<subseteq> set (subdir_paths top_path es)" by blast
    have dj: "set (top_path # ?F) \<inter> set (subdir_paths top_path es) = {}"
      using "2.prems"(2) by auto
    have "trace s' = trace s @ (t1 @ t2)" using t1(1) t2(1) by simp
    moreover have "distinct (visited (t1 @ t2))" using t1 t2 dj by auto
    moreover have "set (visited (t1 @ t2)) \<subseteq> set (paths top_path (Entries es))"
      using t1(3) t2(3) by auto
    ultimately show ?thesis by blast
  qed
next
  case (3 top_path dirs s)
  then have "trace s' = trace s @ []" by auto
  then show ?case by (intro exI [of _ "[]"]) simp
next
  case (4 top_path dirs name f rest s)
  then show ?case by simp
next
  case (5 top_path dirs name link r rest s)
  let ?p = "path_join top_path name"
  have d1: "distinct (paths ?p r)" and d2: "distinct (subdir_paths top_path rest)"
    and dj: "set (paths ?p r) \<inter> set (subdir_paths top_path rest) = {}"
    using "5.prems"(2) by simp_all
  show ?case
  proof (cases "name \<notin> set dirs \<or> link")
    case True
    with "5.prems"(1) have w: "walk_subdirs top_path dirs rest s = (c, s')" by simp
    from "5.IH"(1) [OF True w d2] show ?thesis by auto
  next
    case False
    obtain c1 s1 where w1: "walk ?p r s = (c1, s1)" by (cases "walk ?p r s") auto
    from "5.IH"(2) [OF False w1 d1] obtain t1 where t1: "trace s1 = trace s @ t1"
      "distinct (visited t1)" "set (visited t1) \<subseteq> set (paths ?p r)" by blast
    show ?thesis
    proof (cases "c1 = Return")
      case True
      with "5.prems"(1) False w1 have "s' = s1" by simp
      with t1 show ?thesis by auto
    next
      case nr: False
      with "5.prems"(1) False w1 have w: "walk_subdirs top_path dirs rest s1 = (c, s')" by simp
      from "5.IH"(3) [OF False w1 [symmetric] nr w d2] obtain t2 where
        t2: "trace s' = trace s1 @ t2" "distinct (visited t2)"
        "set (visited t2) \<subseteq> set (subdir_paths top_path rest)" by blast
      have "trace s' = trace s @ (t1 @ t2)" using t1(1) t2(1) by simp
      moreover have "distinct (visited (t1 @ t2))" using t1 t2 dj by auto
      moreover have "set (visited (t1 @ t2)) \<subseteq> set (subdir_paths top_path ((name, SubDir link r) # rest))"
        using t1(3) t2(3) by auto
      ultimately show ?thesis by blast
    qed
  qed
qed

lemma audit_visited:
  assumes "wf_listing (os_scandir w)" and "start_path \<noteq> []"
  shows "distinct (visited (trace (audit_files_with_clamav w start_path)))"
proof (cases "os_path_isdir w start_path")
  case False
  then show ?thesis
    by (simp add: audit_files_with_clamav_def logging_log_def init_state_def)
next
  case True
  let ?s0 = "logging_log INFO (''Starting ClamAV audit of: '' @ start_path) init_state"
  obtain c s' where w: "walk start_path (os_scandir w) ?s0 = (c, s')"
    by (cases "walk start_path (os_scandir w) ?s0") auto
  have d: "distinct (paths start_path (os_scandir w))"
    using assms by (rule paths_distinct(1))
  from walk_visited(1) [OF w d] obtain t where t: "trace s' = trace ?s0 @ t" "distinct (visited t)"
    by blast
  have "visited (trace ?s0) = []" by (simp add: logging_log_def init_state_def)
  with t have "distinct (visited (trace s'))" by simp
  with True w show ?thesis
    by (simp add: audit_files_with_clamav_def logging_log_def)
qed

lemma audit_no_skip:
  assumes "wf_listing (os_scandir w)" and "start_path \<noteq> []"
  shows "\<forall>e\<in>set (trace (audit_files_with_clamav w start_path)). \<not> is_skip e"
proof (cases "os_path_isdir w start_path")
  case False
  then show ?thesis
    by (simp add: audit_files_with_clamav_def logging_log_def init_state_def)
next
  case True
  let ?s0 = "logging_log INFO (''Starting ClamAV audit of: '' @ start_path) init_state"
  obtain c s' where w: "walk start_path (os_scandir w) ?s0 = (c, s')"
    by (cases "walk start_path (os_scandir w) ?s0") auto
  have d: "distinct (paths start_path (os_scandir w))"
    using assms by (rule paths_distinct(1))
  have i: "inaccessible_dirs ?s0 \<inter> set (paths start_path (os_scandir w)) = {}"
    by (simp add: init_state_def)
  have n: "\<forall>e\<in>set (trace ?s0). \<not> is_skip e" by (simp add: logging_log_def init_state_def)
  from walk_no_skip(1) [OF w d i n] have "\<forall>e\<in>set (trace s'). \<not> is_skip e" by simp
  with True w show ?thesis
    by (simp add: audit_files_with_clamav_def logging_log_def)
qed

lemma split_at_last:
  assumes "xs @ c # r = xs' @ c # r'" "c \<notin> set r" "c \<notin> set r'"
  shows "xs = xs' \<and> r = r'"
proof -
  have tw: "takeWhile (\<lambda>x. x \<noteq> c) (rev (ys @ c # t)) = rev t" if "c \<notin> set t" for ys t
  proof -
    have "rev (ys @ c # t) = rev t @ c # rev ys" by simp
    moreover have "takeWhile (\<lambda>x. x \<noteq> c) (rev t @ c # rev ys) = takeWhile (\<lambda>x. x \<noteq> c) (rev t)"
      by (rule takeWhile_tail) simp
    moreover have "takeWhile (\<lambda>x. x \<noteq> c) (rev t) = rev t"
      using that by (auto simp: takeWhile_eq_all_conv)
    ultimately show ?thesis by simp
  qed
  from assms(1) have "takeWhile (\<lambda>x. x \<noteq> c) (rev (xs @ c # r))
                      = takeWhile (\<lambda>x. x \<noteq> c) (rev (xs' @ c # r'))" by simp
  then have "rev r = rev r'" unfolding tw [OF assms(2)] tw [OF assms(3)] .
  then have "r = r'" by simp
  with assms(1) show ?thesis by simp
qed

lemma str_nat_digits: "set (str_nat n) \<subseteq> set ''0123456789''"
proof (induction n rule: str_nat.induct)
  case (1 n)
  have dc: "digit_char d \<in> set ''0123456789''" if "d < 10" for d
  proof -
    have "d < length ''0123456789''" using that by simp
    then show ?thesis unfolding digit_char_def by (rule nth_mem)
  qed
  show ?case
  proof (cases "n < 10")
    case True
    with dc [of n] show ?thesis by (subst str_nat.simps) simp
  next
    case False
    have "n mod 10 < 10" by simp
    with dc [of "n mod 10"] 1 False show ?thesis by (subst str_nat.simps) simp
  qed
qed

lemma str_int_no_space: "CHR '' '' \<notin> set (str_int i)"
  using str_nat_digits [of "nat i"] str_nat_digits [of "nat (- i)"]
  by (auto simp: str_int_def)

lemma scan_error_msg_inj: "scan_error_msg p rc = scan_error_msg q rc' \<Longrightarrow> p = q"
proof -
  assume "scan_error_msg p rc = scan_error_msg q rc'"
  then have eq: "(p @ '' (Return Code:'') @ CHR '' '' # (str_int rc @ '')'')
           = (q @ '' (Return Code:'') @ CHR '' '' # (str_int rc' @ '')'')"
    by (simp add: scan_error_msg_def)
  have n1: "CHR '' '' \<notin> set (str_int rc @ '')'')" using str_int_no_space by simp
  have n2: "CHR '' '' \<notin> set (str_int rc' @ '')'')" using str_int_no_space by simp
  from split_at_last [OF eq n1 n2] have "p @ '' (Return Code:'' = q @ '' (Return Code:''"
    by (rule conjunct1)
  then show ?thesis by simp
qed

lemma classifies_clean [simp]: "classifies p (Log INFO (clean_msg q)) = (p = q)"
  by (auto simp: classifies_def clean_msg_def)

lemma classifies_infected [simp]: "classifies p (Log WARNING (infected_msg q)) = (p = q)"
  by (auto simp: classifies_def infected_msg_def)

lemma classifies_error [simp]: "classifies p (Log ERROR (scan_error_msg q rc)) = (p = q)"
  using scan_error_msg_inj by (auto simp: classifies_def)

lemma classifies_other [simp]:
  "\<not> classifies p (Log WARNING (output_msg out))"
  "\<not> classifies p (Log ERROR (stderr_msg err))"
  "\<not> classifies p (Log ERROR not_found_msg)"
  "\<not> classifies p (Log ERROR (unexpected_msg q e))"
  "\<not> classifies p (Log WARNING (permission_msg root))"
  "\<not> classifies p (Log ERROR (traversal_msg root e))"
  "\<not> classifies p (Log ERROR (invalid_root_msg start_path))"
  "\<not> classifies p (Log INFO (CHR ''S'' # m))"
  "\<not> classifies p (Log INFO (CHR ''C'' # CHR ''l'' # m))"
  "\<not> classifies p (IsFile q b)"
  "\<not> classifies p (Run argv opts r)"
  "\<not> classifies p (Yield d ds fs)"
  "\<not> classifies p (Skip d)"
  "\<not> classifies p (ScandirFailed d e)"
  by (simp_all add: classifies_def clean_msg_def infected_msg_def scan_error_msg_def
        output_msg_def stderr_msg_def not_found_msg_def unexpected_msg_def permission_msg_def
        traversal_msg_def invalid_root_msg_def)

lemma clamscan_command_inj [simp]: "(clamscan_command q = clamscan_command p) = (q = p)"
  by (simp add: clamscan_command_def)

lemma last_clamscan_command [simp]: "last (clamscan_command q) = q"
  by (simp add: clamscan_command_def)

lemma completed_on_clamscan [simp]:
  "completed_on p (Run (clamscan_command q) opts (CompletedProcess rc out err)) = (p = q)"
  by auto

lemma scan_events_balance:
  "length (filter (classifies p) (scan_events q r)) = length (filter (completed_on p) (scan_events q r))"
proof (cases r)
  case (CompletedProcess rc out err)
  then show ?thesis by (simp add: scan_events_completed)
next
  case (RunRaises e)
  then show ?thesis by (cases e) (simp_all add: scan_events_raises)
qed

lemma files_events_balance:
  "length (filter (classifies p) (files_events root files))
   = length (filter (completed_on p) (files_events root files))"
proof (induction files)
  case Nil
  show ?case by simp
next
  case (Cons a files)
  obtain n fault isf r where a: "a = (n, FileEnv fault isf r)" by (rule files_obtain)
  show ?case
  proof (cases fault)
    case (Some x)
    with a show ?thesis by simp
  next
    case None
    show ?thesis
    proof (cases isf)
      case False
      with a None Cons show ?thesis by simp
    next
      case True
      with a None Cons scan_events_balance [of p "path_join root n" r] show ?thesis by simp
    qed
  qed
qed

lemma loop_body_balanced:
  assumes "balanced s"
    and "loop_body root dirs files (emit (Yield root dirs (map fst files)) s) = (c, dirs', s')"
  shows "balanced s'"
  using assms(2)
proof (cases rule: loop_body_cases)
  case skip
  with assms(1) show ?thesis by (simp add: balanced_def)
next
  case (denied m)
  with assms(1) files_events_balance [of _ root files] show ?thesis by (simp add: balanced_def)
next
  case (failed e)
  with assms(1) files_events_balance [of _ root files] show ?thesis by (simp add: balanced_def)
next
  case finished
  with assms(1) files_events_balance [of _ root files] show ?thesis by (simp add: balanced_def)
qed

lemma walk_balanced:
  assumes "balanced s" and "walk top_path r s = (c, s')"
  shows "balanced s'"
proof -
  have "if c = Return then balanced s' else balanced s'"
    by (rule walk_invariant(1) [where P = balanced and R = balanced, OF _ _ assms])
       (simp_all add: loop_body_balanced, simp add: balanced_def)
  then show ?thesis by simp
qed

lemma audit_balanced: "balanced (audit_files_with_clamav w start_path)"
proof (cases "os_path_isdir w start_path")
  case False
  then show ?thesis
    by (simp add: audit_files_with_clamav_def balanced_def logging_log_def init_state_def)
next
  case True
  let ?s0 = "logging_log INFO (''Starting ClamAV audit of: '' @ start_path) init_state"
  obtain c s' where w: "walk start_path (os_scandir w) ?s0 = (c, s')"
    by (cases "walk start_path (os_scandir w) ?s0") auto
  have "balanced ?s0" by (simp add: balanced_def logging_log_def init_state_def)
  from walk_balanced [OF this w] have b: "balanced s'" .
  then have "balanced (logging_log INFO ''ClamAV audit completed.'' s')"
    by (simp add: balanced_def logging_log_def)
  with b True w show ?thesis by (simp add: audit_files_with_clamav_def)
qed

lemma completed_on_scanned:
  "length (filter (completed_on p) t) \<le> count_list (scanned t) p"
proof (induction t)
  case Nil
  show ?case by simp
next
  case (Cons e t)
  show ?case
  proof (cases e)
    case (Run argv opts r)
    show ?thesis
    proof (cases r)
      case (CompletedProcess rc out err)
      with Run Cons show ?thesis by (auto simp: clamscan_command_def)
    next
      case (RunRaises x)
      with Run Cons show ?thesis by auto
    qed
  qed (use Cons in simp_all)
qed

lemma distinct_count_le_1: "distinct xs \<Longrightarrow> count_list xs x \<le> 1"
  by (induction xs) (auto simp: count_list_0_iff)

lemma scanned_scan_events [simp]: "scanned (scan_events p r) = [p]"
proof -
  obtain logs where l: "scan_events p r = Run (clamscan_command p) clamscan_options r # logs"
    "\<forall>e\<in>set logs. \<exists>lvl msg. e = Log lvl msg"
    using scan_events_shape by blast
  have "scanned logs = []" using l(2)
  proof (induction logs)
    case Nil
    show ?case by simp
  next
    case (Cons a logs)
    then obtain lvl msg where "a = Log lvl msg" by auto
    with Cons show ?case by simp
  qed
  with l(1) show ?thesis by (simp add: clamscan_command_def)
qed

lemma runs_append [simp]: "runs (a @ b) = runs a @ runs b"
  by (induction a rule: runs.induct) simp_all

lemma scanned_runs: "scanned t = map fst (runs t)"
  by (induction t rule: runs.induct) simp_all

lemma has_missing_append [simp]: "has_missing (a @ b) = (has_missing a \<or> has_missing b)"
  by (induction a rule: has_missing.induct) auto

lemma until_missing_append:
  "until_missing (a @ b) = (if has_missing a then until_missing a else a @ until_missing b)"
  by (induction a rule: until_missing.induct) auto

lemma until_missing_id: "\<not> has_missing xs \<Longrightarrow> until_missing xs = xs"
  by (induction xs rule: until_missing.induct) auto

lemma runs_scan_events [simp]: "runs (scan_events p r) = [(p, r)]"
proof -
  obtain logs where l: "scan_events p r = Run (clamscan_command p) clamscan_options r # logs"
    "\<forall>e\<in>set logs. \<exists>lvl msg. e = Log lvl msg"
    using scan_events_shape by blast
  have "runs logs = []" using l(2)
  proof (induction logs)
    case Nil
    show ?case by simp
  next
    case (Cons a logs)
    then obtain lvl msg where "a = Log lvl msg" by auto
    with Cons show ?case by simp
  qed
  with l(1) show ?thesis by simp
qed

lemma scan_control_missing: "scan_control p r = (if is_missing r then Return else Continue)"
proof (cases r)
  case (CompletedProcess rc out err)
  then show ?thesis by simp
next
  case (RunRaises e)
  then show ?thesis by (cases e) simp_all
qed

lemma files_runs:
  "runs (files_events root files) = until_missing (file_runs root files)
   \<and> files_control root files =
       (if has_missing (file_runs root files) then Return
        else case files_fault files of None \<Rightarrow> Continue | Some e \<Rightarrow> Raise e)"
proof (induction files)
  case Nil
  show ?case by simp
next
  case (Cons a files)
  obtain n fault isf r where a: "a = (n, FileEnv fault isf r)" by (rule files_obtain)
  show ?case
  proof (cases fault)
    case (Some e)
    with a show ?thesis by simp
  next
    case None
    show ?thesis
    proof (cases isf)
      case False
      with a None Cons show ?thesis by simp
    next
      case True
      with a None Cons show ?thesis by (simp add: scan_control_missing)
    qed
  qed
qed

lemma loop_body_runs:
  assumes "loop_body root dirs files s = (c, dirs', s')" and "root \<notin> inaccessible_dirs s"
  shows "runs (trace s') = runs (trace s) @ until_missing (file_runs root files)
       \<and> (c = Return \<longleftrightarrow> has_missing (file_runs root files))
       \<and> (c \<noteq> Return \<longrightarrow> dirs' = (if prunes (files_fault files) then [] else dirs))
       \<and> inaccessible_dirs s' \<subseteq> insert root (inaccessible_dirs s)"
proof -
  note F = files_runs [of root files]
  from assms(1) show ?thesis
  proof (cases rule: loop_body_cases)
    case skip
    with assms(2) show ?thesis by simp
  next
    case (denied m)
    with F have nm: "\<not> has_missing (file_runs root files)"
      by (auto split: if_splits)
    with denied F have ff: "files_fault files = Some (PermissionError m)"
      by (auto split: option.splits)
    from denied F nm ff show ?thesis by auto
  next
    case (failed e)
    with F have nm: "\<not> has_missing (file_runs root files)"
      by (auto split: if_splits)
    with failed F have ff: "files_fault files = Some e"
      by (auto split: option.splits)
    from failed(3) have np: "\<not> prunes (Some e)" by (cases e) simp_all
    from failed F nm ff np show ?thesis by auto
  next
    case finished
    show ?thesis
    proof (cases "has_missing (file_runs root files)")
      case True
      with finished F show ?thesis by auto
    next
      case False
      with finished F have "files_fault files = None" and "c = Continue"
        by (auto split: option.splits)
      with finished F False show ?thesis by auto
    qed
  qed
qed

lemma walk_runs:
  "walk top_path r s = (c, s') \<Longrightarrow> distinct (paths top_path r) \<Longrightarrow>
     inaccessible_dirs s \<inter> set (paths top_path r) = {} \<Longrightarrow>
     runs (trace s') = runs (trace s) @ until_missing (reg_runs top_path r)
     \<and> (c = Return \<longleftrightarrow> has_missing (reg_runs top_path r))
     \<and> inaccessible_dirs s' \<subseteq> inaccessible_dirs s \<union> set (paths top_path r)"
  "walk_subdirs top_path dirs es s = (c, s') \<Longrightarrow> distinct (subdir_paths top_path es) \<Longrightarrow>
     inaccessible_dirs s \<inter> set (subdir_paths top_path es) = {} \<Longrightarrow>
     set (dirs_of es) \<subseteq> set dirs \<Longrightarrow>
     runs (trace s') = runs (trace s) @ until_missing (sub_reg_runs top_path es)
     \<and> (c = Return \<longleftrightarrow> has_missing (sub_reg_runs top_path es))
     \<and> inaccessible_dirs s' \<subseteq> inaccessible_dirs s \<union> set (subdir_paths top_path es)"
proof (induction top_path r s and top_path dirs es s arbitrary: c s' and c s'
       rule: walk_walk_subdirs.induct)
  case (1 top_path e s)
  then show ?case by auto
next
  case (2 top_path es s)
  let ?s0 = "emit (Yield top_path (dirs_of es) (map fst (files_of es))) s"
  let ?F = "map (path_join top_path) (map fst (files_of es))"
  let ?fr = "file_runs top_path (files_of es)"
  obtain c1 dirs1 s1 where lb: "loop_body top_path (dirs_of es) (files_of es) ?s0 = (c1, dirs1, s1)"
    by (cases "loop_body top_path (dirs_of es) (files_of es) ?s0") auto
  have nt: "top_path \<notin> inaccessible_dirs ?s0" using "2.prems"(3) by auto
  from loop_body_runs [OF lb nt] have
    r1: "runs (trace s1) = runs (trace s) @ until_missing ?fr"
    and c1: "c1 = Return \<longleftrightarrow> has_missing ?fr"
    and d1: "c1 \<noteq> Return \<longrightarrow> dirs1 = (if prunes (files_fault (files_of es)) then [] else dirs_of es)"
    and i1: "inaccessible_dirs s1 \<subseteq> insert top_path (inaccessible_dirs s)"
    by simp_all
  show ?case
  proof (cases "c1 = Return")
    case True
    with "2.prems"(1) lb have "s' = s1" "c = Return" by simp_all
    with r1 c1 i1 True show ?thesis by (auto simp add: until_missing_append)
  next
    case False
    with "2.prems"(1) lb have w: "walk_subdirs top_path dirs1 es s1 = (c, s')" by simp
    from False c1 have nm: "\<not> has_missing ?fr" by simp
    show ?thesis
    proof (cases "prunes (files_fault (files_of es))")
      case True
      with False d1 have "dirs1 = []" by simp
      with w have "c = Continue" "s' = s1" by (simp_all add: walk_subdirs_no_dirs)
      with r1 i1 nm True show ?thesis by (auto simp add: until_missing_append)
    next
      case np: False
      with False d1 have dd: "set (dirs_of es) \<subseteq> set dirs1" by simp
      have ds: "distinct (subdir_paths top_path es)" using "2.prems"(2) by simp
      have dj: "top_path \<notin> set (subdir_paths top_path es)" using "2.prems"(2) by simp
      have ij: "inaccessible_dirs s1 \<inter> set (subdir_paths top_path es) = {}"
        using i1 dj "2.prems"(3) by auto
      from "2.IH" [OF lb [symmetric] refl False w ds ij dd] have
        r2: "runs (trace s') = runs (trace s1) @ until_missing (sub_reg_runs top_path es)"
        and c2: "c = Return \<longleftrightarrow> has_missing (sub_reg_runs top_path es)"
        and i2: "inaccessible_dirs s' \<subseteq> inaccessible_dirs s1 \<union> set (subdir_paths top_path es)"
        by simp_all
      have "runs (trace s') = runs (trace s) @ until_missing (reg_runs top_path (Entries es))"
        using r1 r2 nm np by (simp add: until_missing_append until_missing_id)
      moreover have "c = Return \<longleftrightarrow> has_missing (reg_runs top_path (Entries es))"
        using c2 nm np by simp
      moreover have "inaccessible_dirs s' \<subseteq> inaccessible_dirs s \<union> set (paths top_path (Entries es))"
        using i1 i2 by auto
      ultimately show ?thesis by blast
    qed
  qed
next
  case (3 top_path dirs s)
  then show ?case by auto
next
  case (4 top_path dirs name f rest s)
  then show ?case by simp
next
  case (5 top_path dirs name link r rest s)
  let ?p = "path_join top_path name"
  have d1: "distinct (paths ?p r)" and d2: "distinct (subdir_paths top_path rest)"
    and dj: "set (paths ?p r) \<inter> set (subdir_paths top_path rest) = {}"
    using "5.prems"(2) by simp_all
  have i1: "inaccessible_dirs s \<inter> set (paths ?p r) = {}"
    and i2: "inaccessible_dirs s \<inter> set (subdir_paths top_path rest) = {}"
    using "5.prems"(3) by auto
  have dd: "set (dirs_of rest) \<subseteq> set dirs" and nd: "name \<in> set dirs"
    using "5.prems"(4) by simp_all
  show ?case
  proof (cases "name \<notin> set dirs \<or> link")
    case True
    with nd have link by simp
    from True "5.prems"(1) have w: "walk_subdirs top_path dirs rest s = (c, s')" by simp
    from "5.IH"(1) [OF True w d2 i2 dd] \<open>link\<close> show ?thesis by auto
  next
    case False
    then have nl: "\<not> link" by simp
    obtain c1 s1 where w1: "walk ?p r s = (c1, s1)" by (cases "walk ?p r s") auto
    from "5.IH"(2) [OF False w1 d1 i1] have
      r1: "runs (trace s1) = runs (trace s) @ until_missing (reg_runs ?p r)"
      and c1: "c1 = Return \<longleftrightarrow> has_missing (reg_runs ?p r)"
      and j1: "inaccessible_dirs s1 \<subseteq> inaccessible_dirs s \<union> set (paths ?p r)"
      by simp_all
    show ?thesis
    proof (cases "c1 = Return")
      case True
      with "5.prems"(1) False w1 have "s' = s1" "c = Return" by simp_all
      with r1 c1 j1 True nl show ?thesis by (auto simp add: until_missing_append)
    next
      case nr: False
      with "5.prems"(1) False w1 have w: "walk_subdirs top_path dirs rest s1 = (c, s')" by simp
      have i3: "inaccessible_dirs s1 \<inter> set (subdir_paths top_path rest) = {}"
        using j1 i2 dj by auto
      from "5.IH"(3) [OF False w1 [symmetric] nr w d2 i3 dd] have
        r2: "runs (trace s') = runs (trace s1) @ until_missing (sub_reg_runs top_path rest)"
        and c2: "c = Return \<longleftrightarrow> has_missing (sub_reg_runs top_path rest)"
        and j2: "inaccessible_dirs s' \<subseteq> inaccessible_dirs s1 \<union> set (subdir_paths top_path rest)"
        by simp_all
      from nr c1 have nm: "\<not> has_missing (reg_runs ?p r)" by simp
      have "runs (trace s') = runs (trace s)
              @ until_missing (sub_reg_runs top_path ((name, SubDir link r) # rest))"
        using r1 r2 nm nl by (simp add: until_missing_append until_missing_id)
      moreover have "c = Return \<longleftrightarrow> has_missing (sub_reg_runs top_path ((name, SubDir link r) # rest))"
        using c2 nm nl by simp
      moreover have "inaccessible_dirs s' \<subseteq> inaccessible_dirs s
              \<union> set (subdir_paths top_path ((name, SubDir link r) # rest))"
        using j1 j2 by auto
      ultimately show ?thesis by blast
    qed
  qed
qed

lemma audit_runs:
  assumes "wf_listing (os_scandir w)" and "start_path \<noteq> []" and "os_path_isdir w start_path"
  shows "runs (trace (audit_files_with_clamav w start_path))
           = until_missing (reg_runs start_path (os_scandir w))
       \<and> (\<not> has_missing (reg_runs start_path (os_scandir w)) \<longrightarrow>
            last (trace (audit_files_with_clamav w start_path)) = Log INFO ''ClamAV audit completed.'')"
proof -
  let ?s0 = "logging_log INFO (''Starting ClamAV audit of: '' @ start_path) init_state"
  obtain c s' where wk: "walk start_path (os_scandir w) ?s0 = (c, s')"
    by (cases "walk start_path (os_scandir w) ?s0") auto
  have d: "distinct (paths start_path (os_scandir w))"
    using assms(1,2) by (rule paths_distinct)
  have i: "inaccessible_dirs ?s0 \<inter> set (paths start_path (os_scandir w)) = {}"
    by (simp add: logging_log_def init_state_def emit_def)
  have r0: "runs (trace ?s0) = []"
    by (simp add: logging_log_def init_state_def emit_def)
  from walk_runs(1) [OF wk d i] r0 have
    r: "runs (trace s') = until_missing (reg_runs start_path (os_scandir w))"
    and c: "c = Return \<longleftrightarrow> has_missing (reg_runs start_path (os_scandir w))"
    by simp_all
  show ?thesis
  proof (cases "c = Return")
    case True
    with wk assms(3) have "audit_files_with_clamav w start_path = s'"
      by (simp add: audit_files_with_clamav_def)
    with r c True show ?thesis by simp
  next
    case False
    with wk assms(3) have "audit_files_with_clamav w start_path
        = logging_log INFO ''ClamAV audit completed.'' s'"
      by (simp add: audit_files_with_clamav_def)
    with r c False show ?thesis by (simp add: logging_log_def emit_def)
  qed
qed

lemma outcome_logs_raises:
  "\<forall>m. e \<noteq> FileNotFoundError m \<Longrightarrow>
     outcome_logs p (RunRaises e) = [Log ERROR (unexpected_msg p e)]"
  by (cases e) (simp_all add: outcome_logs_def scan_events_raises)

lemma settled_append: "settled a \<Longrightarrow> settled b \<Longrightarrow> settled (a @ b)"
  by (induction a rule: settled.induct) simp_all

lemma settled_logs: "\<forall>e\<in>set logs. \<exists>lvl msg. e = Log lvl msg \<Longrightarrow> settled logs"
proof (induction logs)
  case Nil
  show ?case by simp
next
  case (Cons a logs)
  then obtain lvl msg where "a = Log lvl msg" by auto
  with Cons show ?case by simp
qed

lemma settled_scan_events: "settled (scan_events p r)"
proof -
  obtain logs where l: "scan_events p r = Run (clamscan_command p) clamscan_options r # logs"
    "\<forall>e\<in>set logs. \<exists>lvl msg. e = Log lvl msg"
    using scan_events_shape by blast
  from l(2) have "settled logs" by (rule settled_logs)
  with l(1) show ?thesis by (simp add: outcome_logs_def)
qed

lemma settled_files_events: "settled (files_events root files)"
proof (induction files)
  case Nil
  show ?case by simp
next
  case (Cons a files)
  obtain n fault isf r where a: "a = (n, FileEnv fault isf r)" by (rule files_obtain)
  show ?case
  proof (cases fault)
    case (Some e)
    with a show ?thesis by simp
  next
    case None
    show ?thesis
    proof (cases isf)
      case False
      with a None Cons show ?thesis by simp
    next
      case True
      with a None Cons show ?thesis
        by (simp add: settled_append settled_scan_events)
    qed
  qed
qed

lemma loop_body_settled:
  assumes "settled (trace s)" and "loop_body root dirs files s = (c, dirs', s')"
  shows "settled (trace s')"
proof -
  note f = settled_append [OF assms(1) settled_files_events [of root files]]
  from assms(2) show ?thesis
  proof (cases rule: loop_body_cases)
    case skip
    with assms(1) show ?thesis by (simp add: settled_append)
  next
    case (denied m)
    have "settled ((trace s @ files_events root files) @ [Log WARNING (permission_msg root)])"
      using f by (rule settled_append) simp
    with denied show ?thesis by simp
  next
    case (failed e)
    have "settled ((trace s @ files_events root files) @ [Log ERROR (traversal_msg root e)])"
      using f by (rule settled_append) simp
    with failed show ?thesis by simp
  next
    case finished
    with f show ?thesis by simp
  qed
qed

lemma walk_settled:
  assumes "settled (trace s)" and "walk top_path r s = (c, s')"
  shows "settled (trace s')"
proof -
  have "if c = Return then settled (trace s') else settled (trace s')"
  proof (rule walk_invariant(1) [where P = "\<lambda>s. settled (trace s)" and R = "\<lambda>s. settled (trace s)",
          OF _ _ assms])
    fix x :: state and p e
    assume "settled (trace x)"
    then show "settled (trace (emit (ScandirFailed p e) x))"
      by (simp add: settled_append)
  next
    fix x :: state and root dirs files c dirs' x'
    assume a: "settled (trace x)"
      and lb: "loop_body root dirs files (emit (Yield root dirs (map fst files)) x) = (c, dirs', x')"
    from a have "settled (trace (emit (Yield root dirs (map fst files)) x))"
      by (simp add: settled_append)
    from loop_body_settled [OF this lb]
    show "if c = Return then settled (trace x') else settled (trace x')" by simp
  qed
  then show ?thesis by simp
qed

lemma audit_settled: "settled (trace (audit_files_with_clamav w start_path))"
proof (cases "os_path_isdir w start_path")
  case False
  then show ?thesis
    by (simp add: audit_files_with_clamav_def logging_log_def init_state_def)
next
  case True
  let ?s0 = "logging_log INFO (''Starting ClamAV audit of: '' @ start_path) init_state"
  obtain c s' where w: "walk start_path (os_scandir w) ?s0 = (c, s')"
    by (cases "walk start_path (os_scandir w) ?s0") auto
  have "settled (trace ?s0)" by (simp add: logging_log_def init_state_def)
  from walk_settled [OF this w] have g: "settled (trace s')" .
  then have "settled (trace s' @ [Log INFO ''ClamAV audit completed.''])"
    by (rule settled_append) simp
  with g True w show ?thesis
    by (simp add: audit_files_with_clamav_def logging_log_def)
qed

lemma settled_nth:
  "settled t \<Longrightarrow> i < length t \<Longrightarrow> t ! i = Run argv opts r \<Longrightarrow>
     prefix (outcome_logs (last argv) r) (drop (Suc i) t)"
proof (induction t arbitrary: i)
  case Nil
  then show ?case by simp
next
  case (Cons a t)
  show ?case
  proof (cases i)
    case 0
    with Cons.prems show ?thesis by simp
  next
    case (Suc j)
    from Cons.prems(1) have "settled t" by (cases a) simp_all
    with Cons.IH [of j] Cons.prems Suc show ?thesis by simp
  qed
qed

lemma prefix_single_drop:
  "prefix [x] (drop (Suc i) t) \<Longrightarrow> Suc i < length t \<and> t ! Suc i = x"
proof -
  assume "prefix [x] (drop (Suc i) t)"
  then obtain zs where z: "drop (Suc i) t = x # zs" by (auto simp: prefix_def)
  then have l: "Suc i < length t" by (cases "Suc i < length t") auto
  from z have "hd (drop (Suc i) t) = x" by simp
  with l show ?thesis by (simp add: hd_drop_conv_nth)
qed

lemma until_missing_take:
  "k < length (until_missing xs) \<Longrightarrow> \<not> is_missing (snd (until_missing xs ! k)) \<Longrightarrow>
     take (Suc (Suc k)) (until_missing xs) = take (Suc (Suc k)) xs"
proof (induction xs arbitrary: k rule: until_missing.induct)
  case 1
  then show ?case by simp
next
  case (2 p r xs)
  show ?case
  proof (cases k)
    case 0
    with "2.prems" have "\<not> is_missing r" by simp
    then show ?thesis using 0 by (cases xs) auto
  next
    case (Suc j)
    with "2.prems" have nm: "\<not> is_missing r" by (cases "is_missing r") auto
    with "2.prems" Suc "2.IH" [of j] show ?thesis by simp
  qed
qed

lemma filter_fst_distinct:
  "distinct (map fst xs) \<Longrightarrow> (p, r) \<in> set xs \<Longrightarrow> filter (\<lambda>x. fst x = p) xs = [(p, r)]"
proof (induction xs)
  case Nil
  then show ?case by simp
next
  case (Cons a xs)
  show ?case
  proof (cases "fst a = p")
    case True
    with Cons.prems have "a = (p, r)" by (cases a) (auto simp: image_iff)
    moreover from True Cons.prems have "filter (\<lambda>x. fst x = p) xs = []"
      by (auto simp: filter_empty_conv image_iff)
    ultimately show ?thesis by simp
  next
    case False
    with Cons show ?thesis by auto
  qed
qed

lemma completed_on_runs:
  "length (filter (completed_on p) t)
     = length (filter (\<lambda>x. is_completed (snd x)) (filter (\<lambda>x. fst x = p) (runs t)))"
proof (induction t rule: runs.induct)
  case 1
  show ?case by simp
next
  case (2 argv opts r t)
  then show ?case by (cases r) simp_all
qed simp_all

lemma audit_classified:
  assumes "wf_listing (os_scandir w)" and "start_path \<noteq> []"
    and "(p, r) \<in> set (runs (trace (audit_files_with_clamav w start_path)))"
  shows "length (filter (classifies p) (trace (audit_files_with_clamav w start_path)))
           = (if is_completed r then 1 else 0)"
proof -
  let ?T = "trace (audit_files_with_clamav w start_path)"
  have d: "distinct (map fst (runs ?T))"
    using distinct_scanned [OF audit_visited [OF assms(1,2)]] by (simp add: scanned_runs)
  have "length (filter (classifies p) ?T) = length (filter (completed_on p) ?T)"
    using audit_balanced [of w start_path] unfolding balanced_def by blast
  also have "\<dots> = length (filter (\<lambda>x. is_completed (snd x)) (filter (\<lambda>x. fst x = p) (runs ?T)))"
    by (rule completed_on_runs)
  also have "\<dots> = (if is_completed r then 1 else 0)"
    by (simp add: filter_fst_distinct [OF d assms(3)])
  finally show ?thesis .
qed

lemma flaky_run:
  "audit_files_with_clamav \<lparr>os_path_isdir = (\<lambda>p. True), os_scandir = flaky\<rparr> ''/data'' =
    \<lparr>trace =
      [Log INFO ''Starting ClamAV audit of: /data'',
       Yield ''/data'' [''sub''] [''x'', ''y''],
       IsFile ''/data/x'' True,
       Run [''clamscan'', ''--no-summary'', ''/data/x''] clamscan_options
         (RunRaises (OtherException ''[Errno 12] Cannot allocate memory'')),
       Log ERROR ''An unexpected error occurred while scanning /data/x: [Errno 12] Cannot allocate memory'',
       IsFile ''/data/y'' True,
       Run [''clamscan'', ''--no-summary'', ''/data/y''] clamscan_options
         (CompletedProcess 0 [] []),
       Log INFO ''CLEAN: /data/y'',
       Yield ''/data/sub'' [] [''z''],
       IsFile ''/data/sub/z'' True,
       Run [''clamscan'', ''--no-summary'', ''/data/sub/z''] clamscan_options
         (CompletedProcess 1 [] []),
       Log WARNING ''INFECTED: /data/sub/z'',
       Log WARNING ''  ClamAV Output: '',
       Log INFO ''ClamAV audit completed.''],
     inaccessible_dirs = {}\<rparr>"
  by (simp add: audit_files_with_clamav_def flaky_def walk_Entries loop_body_eq
        scan_events_completed scan_events_raises logging_log_def emit_def init_state_def
        path_join_def clamscan_command_def clean_msg_def infected_msg_def output_msg_def
        unexpected_msg_def strip_def)

lemma audit_ends:
  assumes "os_path_isdir w start_path"
  shows "last (trace (audit_files_with_clamav w start_path)) = Log INFO ''ClamAV audit completed.''
       \<or> aborted (trace (audit_files_with_clamav w start_path))"
proof -
  let ?s0 = "logging_log INFO (''Starting ClamAV audit of: '' @ start_path) init_state"
  obtain c s' where w: "walk start_path (os_scandir w) ?s0 = (c, s')"
    by (cases "walk start_path (os_scandir w) ?s0") auto
  have "quiet (trace ?s0)" by (simp add: logging_log_def init_state_def)
  from walk_quiet_aborted [OF this w] assms w show ?thesis
    by (auto simp: audit_files_with_clamav_def logging_log_def)
qed

lemma flaky_wf: "wf_listing flaky"
  by (simp add: flaky_def valid_name_def)

lemma flaky_reg_runs:
  "reg_runs ''/data'' flaky =
     [(''/data/x'', RunRaises (OtherException ''[Errno 12] Cannot allocate memory'')),
      (''/data/y'', CompletedProcess 0 [] []),
      (''/data/sub/z'', CompletedProcess 1 [] [])]"
  by (simp add: flaky_def path_join_def)

lemma no_scanner_reg_runs:
  "reg_runs ''/data'' no_scanner =
     [(''/data/a.txt'', RunRaises (FileNotFoundError ''[Errno 2] No such file or directory: clamscan'')),
      (''/data/b.exe'', CompletedProcess 1 [] []),
      (''/data/sub/c.txt'', CompletedProcess 0 [] [])]"
  by (simp add: no_scanner_def path_join_def)


section \<open>The per-file scan\<close>

text \<open>
  C1. The scan of a file classifies the exit status of the scanner process: exit code 0
  logs the one INFO line "CLEAN: <path>"; exit code 1 logs the WARNING line
  "INFECTED: <path>" and then a second WARNING line with the stripped standard output;
  any other exit code logs an ERROR line with the path and the exit code and then a second
  ERROR line with the stripped standard error. Nothing else is logged, and the loop goes on.
\<close>

theorem scan_file_exit_code_contract:
  "scan_file p (CompletedProcess 0 out err) s =
     (Continue, s\<lparr>trace := trace s @
        [Run [''clamscan'', ''--no-summary'', p] clamscan_options (CompletedProcess 0 out err),
         Log INFO (''CLEAN: '' @ p)]\<rparr>)
   \<and> scan_file p (CompletedProcess 1 out err) s =
     (Continue, s\<lparr>trace := trace s @
        [Run [''clamscan'', ''--no-summary'', p] clamscan_options (CompletedProcess 1 out err),
         Log WARNING (''INFECTED: '' @ p),
         Log WARNING (''  ClamAV Output: '' @ strip out)]\<rparr>)
   \<and> (rc \<noteq> 0 \<and> rc \<noteq> 1 \<longrightarrow>
       scan_file p (CompletedProcess rc out err) s =
         (Continue, s\<lparr>trace := trace s @
            [Run [''clamscan'', ''--no-summary'', p] clamscan_options (CompletedProcess rc out err),
             Log ERROR (''ERROR scanning '' @ p @ '' (Return Code: '' @ str_int rc @ '')''),
             Log ERROR (''  ClamAV Stderr: '' @ strip err)]\<rparr>))"
  by (simp add: scan_file_frame scan_events_completed clamscan_command_def clean_msg_def
        infected_msg_def output_msg_def scan_error_msg_def stderr_msg_def)

theorem scan_file_exit_code_contract_witness:
  "scan_file ''/data/x''
      (CompletedProcess 2 [] (''  LibClamAV Error: cannot open  '' @ [CHR 0x0A])) init_state =
     (Continue, \<lparr>trace =
        [Run [''clamscan'', ''--no-summary'', ''/data/x''] clamscan_options
           (CompletedProcess 2 [] (''  LibClamAV Error: cannot open  '' @ [CHR 0x0A])),
         Log ERROR ''ERROR scanning /data/x (Return Code: 2)'',
         Log ERROR ''  ClamAV Stderr: LibClamAV Error: cannot open''],
       inaccessible_dirs = {}\<rparr>)"
  using scan_file_exit_code_contract
    [of "''/data/x''" "[]" "''  LibClamAV Error: cannot open  '' @ [CHR 0x0A]" init_state 2]
  by (simp add: init_state_def str_int_def str_nat.simps digit_char_def strip_def py_isspace_def)

text \<open>
  C8. A failure of the scanner call for one file other than the missing binary is caught:
  one ERROR line with the path of the file and the text of the exception is logged, and
  the loop goes on with the next file. The files after it are handled exactly as they
  would have been without it: the same events, the same control outcome. In the trace of
  a whole run, every such call is followed at once by that ERROR line, and every scanner
  call is followed at once by the lines that its own path and its own result give. The
  run ends with the completion line unless a call found the binary missing. On a
  well-formed tree, from a start path that is an existing directory, the scanner calls of
  the run are what the tree offers, in the order of the walk and through the
  subdirectories, up to the first call that finds the binary missing: after a call that
  failed in another way, the next call is the one for the next file that the tree offers,
  every scanned path whose process returned is classified exactly once, and when no call
  finds the binary missing every file offered is scanned and the run ends with the
  completion line.
\<close>

theorem unexpected_scan_failure_is_contained:
  assumes "\<forall>m. e \<noteq> FileNotFoundError m"
  shows "files_loop root ((file_name, FileEnv None True (RunRaises e)) # rest) s =
           (fst (files_loop root rest s),
            s\<lparr>trace := trace s @
               [IsFile (path_join root file_name) True,
                Run [''clamscan'', ''--no-summary'', path_join root file_name] clamscan_options
                  (RunRaises e),
                Log ERROR (''An unexpected error occurred while scanning ''
                           @ path_join root file_name @ '': '' @ exn_str e)]
               @ files_events root rest\<rparr>)
         \<and> files_loop root rest s =
           (fst (files_loop root rest s), s\<lparr>trace := trace s @ files_events root rest\<rparr>)
         \<and> (\<forall>i argv opts. i < length (trace (audit_files_with_clamav w start_path))
                \<and> trace (audit_files_with_clamav w start_path) ! i = Run argv opts (RunRaises e) \<longrightarrow>
              Suc i < length (trace (audit_files_with_clamav w start_path))
              \<and> trace (audit_files_with_clamav w start_path) ! Suc i =
                  Log ERROR (''An unexpected error occurred while scanning ''
                             @ last argv @ '': '' @ exn_str e))
         \<and> (\<forall>i argv opts r. i < length (trace (audit_files_with_clamav w start_path))
                \<and> trace (audit_files_with_clamav w start_path) ! i = Run argv opts r \<longrightarrow>
              prefix (outcome_logs (last argv) r)
                (drop (Suc i) (trace (audit_files_with_clamav w start_path))))
         \<and> (os_path_isdir w start_path \<longrightarrow>
              last (trace (audit_files_with_clamav w start_path)) = Log INFO ''ClamAV audit completed.''
              \<or> aborted (trace (audit_files_with_clamav w start_path)))
         \<and> (wf_listing (os_scandir w) \<and> start_path \<noteq> [] \<and> os_path_isdir w start_path \<longrightarrow>
              runs (trace (audit_files_with_clamav w start_path))
                = until_missing (reg_runs start_path (os_scandir w))
              \<and> (\<forall>k<length (runs (trace (audit_files_with_clamav w start_path))).
                    snd (runs (trace (audit_files_with_clamav w start_path)) ! k) = RunRaises e \<longrightarrow>
                    take (Suc (Suc k)) (runs (trace (audit_files_with_clamav w start_path)))
                      = take (Suc (Suc k)) (reg_runs start_path (os_scandir w)))
              \<and> (\<forall>p r. (p, r) \<in> set (runs (trace (audit_files_with_clamav w start_path))) \<longrightarrow>
                    length (filter (classifies p) (trace (audit_files_with_clamav w start_path)))
                      = (if is_completed r then 1 else 0))
              \<and> (\<not> has_missing (reg_runs start_path (os_scandir w)) \<longrightarrow>
                   runs (trace (audit_files_with_clamav w start_path))
                     = reg_runs start_path (os_scandir w)
                   \<and> last (trace (audit_files_with_clamav w start_path))
                     = Log INFO ''ClamAV audit completed.''))"
proof -
  let ?T = "trace (audit_files_with_clamav w start_path)"
  let ?R = "reg_runs start_path (os_scandir w)"
  have c: "scan_control (path_join root file_name) (RunRaises e) = Continue"
    using assms by (cases e) simp_all
  have ev: "scan_events (path_join root file_name) (RunRaises e) =
      [Run [''clamscan'', ''--no-summary'', path_join root file_name] clamscan_options (RunRaises e),
       Log ERROR (''An unexpected error occurred while scanning '' @ path_join root file_name
                           @ '': '' @ exn_str e)]"
    using assms by (cases e) (simp_all add: scan_events_raises clamscan_command_def unexpected_msg_def)
  have A: "files_loop root ((file_name, FileEnv None True (RunRaises e)) # rest) s =
           (fst (files_loop root rest s),
            s\<lparr>trace := trace s @
               [IsFile (path_join root file_name) True,
                Run [''clamscan'', ''--no-summary'', path_join root file_name] clamscan_options
                  (RunRaises e),
                Log ERROR (''An unexpected error occurred while scanning ''
                           @ path_join root file_name @ '': '' @ exn_str e)]
               @ files_events root rest\<rparr>)
         \<and> files_loop root rest s =
           (fst (files_loop root rest s), s\<lparr>trace := trace s @ files_events root rest\<rparr>)"
    by (simp add: files_loop_frame c ev)
  have st: "prefix (outcome_logs (last argv) r) (drop (Suc i) ?T)"
    if "i < length ?T" and "?T ! i = Run argv opts r" for i argv opts r
    using audit_settled that by (rule settled_nth)
  have B: "Suc i < length ?T \<and> ?T ! Suc i =
             Log ERROR (''An unexpected error occurred while scanning '' @ last argv @ '': '' @ exn_str e)"
    if i: "i < length ?T" and r: "?T ! i = Run argv opts (RunRaises e)" for i argv opts
  proof -
    from st [OF i r] have "prefix [Log ERROR (unexpected_msg (last argv) e)] (drop (Suc i) ?T)"
      by (simp add: outcome_logs_raises [OF assms])
    from prefix_single_drop [OF this] show ?thesis by (simp add: unexpected_msg_def)
  qed
  have C: "last ?T = Log INFO ''ClamAV audit completed.'' \<or> aborted ?T"
    if "os_path_isdir w start_path"
    using that by (rule audit_ends)
  have D: "runs ?T = until_missing ?R
         \<and> (\<forall>k<length (runs ?T). snd (runs ?T ! k) = RunRaises e \<longrightarrow>
               take (Suc (Suc k)) (runs ?T) = take (Suc (Suc k)) ?R)
         \<and> (\<forall>p r. (p, r) \<in> set (runs ?T) \<longrightarrow>
               length (filter (classifies p) ?T) = (if is_completed r then 1 else 0))
         \<and> (\<not> has_missing ?R \<longrightarrow> runs ?T = ?R \<and> last ?T = Log INFO ''ClamAV audit completed.'')"
    if wf: "wf_listing (os_scandir w)" and ne: "start_path \<noteq> []"
      and isdir: "os_path_isdir w start_path"
  proof -
    from audit_runs [OF wf ne isdir] have r: "runs ?T = until_missing ?R"
      and l: "\<not> has_missing ?R \<longrightarrow> last ?T = Log INFO ''ClamAV audit completed.''"
      by simp_all
    have nm: "\<not> is_missing (RunRaises e)" using assms by (cases e) simp_all
    have t: "take (Suc (Suc k)) (runs ?T) = take (Suc (Suc k)) ?R"
      if "k < length (runs ?T)" and "snd (runs ?T ! k) = RunRaises e" for k
      using that nm unfolding r by (simp add: until_missing_take)
    have cl: "length (filter (classifies p) ?T) = (if is_completed r then 1 else 0)"
      if "(p, r) \<in> set (runs ?T)" for p r
      using wf ne that by (rule audit_classified)
    have "runs ?T = ?R" if "\<not> has_missing ?R"
      using r that by (simp add: until_missing_id)
    with r t cl l show ?thesis by blast
  qed
  from A B st C D show ?thesis by blast
qed


theorem unexpected_scan_failure_is_contained_witness:
  "(\<forall>m. OtherException ''[Errno 12] Cannot allocate memory'' \<noteq> FileNotFoundError m)
   \<and> files_loop ''/data''
     [(''x'', FileEnv None True (RunRaises (OtherException ''[Errno 12] Cannot allocate memory''))),
      (''y'', FileEnv None True (CompletedProcess 0 [] []))] init_state =
   (Continue,
    \<lparr>trace =
      [IsFile ''/data/x'' True,
       Run [''clamscan'', ''--no-summary'', ''/data/x''] clamscan_options
         (RunRaises (OtherException ''[Errno 12] Cannot allocate memory'')),
       Log ERROR ''An unexpected error occurred while scanning /data/x: [Errno 12] Cannot allocate memory'',
       IsFile ''/data/y'' True,
       Run [''clamscan'', ''--no-summary'', ''/data/y''] clamscan_options (CompletedProcess 0 [] []),
       Log INFO ''CLEAN: /data/y''],
     inaccessible_dirs = {}\<rparr>)
   \<and> trace (audit_files_with_clamav \<lparr>os_path_isdir = (\<lambda>p. True), os_scandir = flaky\<rparr> ''/data'') ! 3
       = Run [''clamscan'', ''--no-summary'', ''/data/x''] clamscan_options
           (RunRaises (OtherException ''[Errno 12] Cannot allocate memory''))
   \<and> trace (audit_files_with_clamav \<lparr>os_path_isdir = (\<lambda>p. True), os_scandir = flaky\<rparr> ''/data'') ! 4
       = Log ERROR ''An unexpected error occurred while scanning /data/x: [Errno 12] Cannot allocate memory''
   \<and> wf_listing (os_scandir \<lparr>os_path_isdir = (\<lambda>p. True), os_scandir = flaky\<rparr>)
   \<and> ''/data'' \<noteq> []
   \<and> os_path_isdir \<lparr>os_path_isdir = (\<lambda>p. True), os_scandir = flaky\<rparr> ''/data''
   \<and> \<not> has_missing (reg_runs ''/data'' flaky)
   \<and> runs (trace (audit_files_with_clamav \<lparr>os_path_isdir = (\<lambda>p. True), os_scandir = flaky\<rparr>
        ''/data''))
      = [(''/data/x'', RunRaises (OtherException ''[Errno 12] Cannot allocate memory'')),
         (''/data/y'', CompletedProcess 0 [] []),
         (''/data/sub/z'', CompletedProcess 1 [] [])]
   \<and> length (filter (classifies ''/data/y'')
        (trace (audit_files_with_clamav \<lparr>os_path_isdir = (\<lambda>p. True), os_scandir = flaky\<rparr>
           ''/data''))) = 1
   \<and> length (filter (classifies ''/data/sub/z'')
        (trace (audit_files_with_clamav \<lparr>os_path_isdir = (\<lambda>p. True), os_scandir = flaky\<rparr>
           ''/data''))) = 1
   \<and> last (trace (audit_files_with_clamav \<lparr>os_path_isdir = (\<lambda>p. True), os_scandir = flaky\<rparr>
        ''/data'')) = Log INFO ''ClamAV audit completed.''"
proof -
  let ?e = "OtherException ''[Errno 12] Cannot allocate memory''"
  let ?w = "\<lparr>os_path_isdir = (\<lambda>p. True), os_scandir = flaky\<rparr>"
  let ?T = "trace (audit_files_with_clamav ?w ''/data'')"
  let ?rest = "[(''y'', FileEnv None True (CompletedProcess 0 [] []))]"
  have h: "\<forall>m. ?e \<noteq> FileNotFoundError m" by simp
  have h1: "wf_listing (os_scandir ?w)" by (simp add: flaky_wf)
  have h2: "''/data'' \<noteq> []" by simp
  have h3: "os_path_isdir ?w ''/data''" by simp
  have h4: "\<not> has_missing (reg_runs ''/data'' flaky)" by (simp add: flaky_reg_runs)
  have sc: "os_scandir ?w = flaky" by simp
  have t3: "?T ! 3 = Run [''clamscan'', ''--no-summary'', ''/data/x''] clamscan_options (RunRaises ?e)"
    and len: "3 < length ?T"
    by (simp_all add: flaky_run)
  note t0 = unexpected_scan_failure_is_contained
    [OF h, where w = ?w and start_path = "''/data''" and root = "''/data''"
       and file_name = "''x''" and rest = ?rest and s = init_state]
  from t0 have fl: "files_loop ''/data'' ((''x'', FileEnv None True (RunRaises ?e)) # ?rest) init_state =
           (fst (files_loop ''/data'' ?rest init_state),
            init_state\<lparr>trace := trace init_state @
               [IsFile (path_join ''/data'' ''x'') True,
                Run [''clamscan'', ''--no-summary'', path_join ''/data'' ''x''] clamscan_options
                  (RunRaises ?e),
                Log ERROR (''An unexpected error occurred while scanning ''
                           @ path_join ''/data'' ''x'' @ '': '' @ exn_str ?e)]
               @ files_events ''/data'' ?rest\<rparr>)"
    by (rule conjunct1)
  from t0 have "\<forall>i argv opts. i < length ?T \<and> ?T ! i = Run argv opts (RunRaises ?e) \<longrightarrow>
              Suc i < length ?T
              \<and> ?T ! Suc i = Log ERROR (''An unexpected error occurred while scanning ''
                             @ last argv @ '': '' @ exn_str ?e)"
    by (rule conjunct2 [THEN conjunct2, THEN conjunct1])
  with len t3 have "?T ! Suc 3 = Log ERROR (''An unexpected error occurred while scanning ''
        @ last [''clamscan'', ''--no-summary'', ''/data/x''] @ '': '' @ exn_str ?e)"
    by blast
  then have t4: "?T ! 4 = Log ERROR
      ''An unexpected error occurred while scanning /data/x: [Errno 12] Cannot allocate memory''"
    by simp
  from t0 have "wf_listing (os_scandir ?w) \<and> ''/data'' \<noteq> [] \<and> os_path_isdir ?w ''/data'' \<longrightarrow>
              runs ?T = until_missing (reg_runs ''/data'' (os_scandir ?w))
              \<and> (\<forall>k<length (runs ?T). snd (runs ?T ! k) = RunRaises ?e \<longrightarrow>
                    take (Suc (Suc k)) (runs ?T) = take (Suc (Suc k)) (reg_runs ''/data'' (os_scandir ?w)))
              \<and> (\<forall>p r. (p, r) \<in> set (runs ?T) \<longrightarrow>
                    length (filter (classifies p) ?T) = (if is_completed r then 1 else 0))
              \<and> (\<not> has_missing (reg_runs ''/data'' (os_scandir ?w)) \<longrightarrow>
                   runs ?T = reg_runs ''/data'' (os_scandir ?w)
                   \<and> last ?T = Log INFO ''ClamAV audit completed.'')"
    by (rule conjunct2 [THEN conjunct2, THEN conjunct2, THEN conjunct2, THEN conjunct2])
  with h1 h2 h3 h4 have r: "runs ?T = reg_runs ''/data'' flaky"
    and l: "last ?T = Log INFO ''ClamAV audit completed.''"
    and a: "\<And>p r. (p, r) \<in> set (runs ?T) \<Longrightarrow>
               length (filter (classifies p) ?T) = (if is_completed r then 1 else 0)"
    unfolding sc by blast+
  have "length (filter (classifies ''/data/y'') ?T) = 1"
    using a [of "''/data/y''" "CompletedProcess 0 [] []"] unfolding r by (simp add: flaky_reg_runs)
  moreover have "length (filter (classifies ''/data/sub/z'') ?T) = 1"
    using a [of "''/data/sub/z''" "CompletedProcess 1 [] []"] unfolding r
    by (simp add: flaky_reg_runs)
  moreover from fl have "files_loop ''/data'' ((''x'', FileEnv None True (RunRaises ?e)) # ?rest) init_state =
   (Continue,
    \<lparr>trace =
      [IsFile ''/data/x'' True,
       Run [''clamscan'', ''--no-summary'', ''/data/x''] clamscan_options (RunRaises ?e),
       Log ERROR ''An unexpected error occurred while scanning /data/x: [Errno 12] Cannot allocate memory'',
       IsFile ''/data/y'' True,
       Run [''clamscan'', ''--no-summary'', ''/data/y''] clamscan_options (CompletedProcess 0 [] []),
       Log INFO ''CLEAN: /data/y''],
     inaccessible_dirs = {}\<rparr>)"
    by (simp add: files_loop_frame scan_events_completed init_state_def path_join_def
          clamscan_command_def clean_msg_def)
  ultimately show ?thesis using h h1 h2 h3 h4 t3 t4 r l
    by (simp add: flaky_reg_runs)
qed

section \<open>The start of a run\<close>

text \<open>
  C3. When the start path is not an existing directory, the run logs exactly one ERROR
  line and returns: the trace holds that line and nothing else, so no directory is listed
  and the scanner is never called.
\<close>

theorem invalid_root_aborts:
  "\<not> os_path_isdir w start_path \<Longrightarrow>
     audit_files_with_clamav w start_path =
       \<lparr>trace = [Log ERROR (''Error: The provided path '' @ [CHR 0x27] @ start_path @ [CHR 0x27]
                                @ '' is not a valid directory.'')],
        inaccessible_dirs = {}\<rparr>"
  by (simp add: audit_files_with_clamav_def logging_log_def emit_def init_state_def
        invalid_root_msg_def)

theorem invalid_root_aborts_witness:
  "audit_files_with_clamav \<lparr>os_path_isdir = (\<lambda>p. False), os_scandir = scenario\<rparr> ''/data/a.txt'' =
       \<lparr>trace = [Log ERROR (''Error: The provided path '' @ [CHR 0x27] @ ''/data/a.txt''
                                @ [CHR 0x27] @ '' is not a valid directory.'')],
        inaccessible_dirs = {}\<rparr>"
  using invalid_root_aborts
    [of "\<lparr>os_path_isdir = (\<lambda>p. False), os_scandir = scenario\<rparr>" "''/data/a.txt''"]
  by simp

section \<open>A directory that cannot be listed\<close>

text \<open>
  C2. The run on the scenario tree, whose directory \<^verbatim>\<open>locked/\<close> cannot be listed:
  \<^verbatim>\<open>os.walk\<close> swallows the error of the listing, so the loop body never sees the
  directory. Nothing below it is listed or scanned, but no WARNING line is logged for it
  and its path is not put into the set of inaccessible directories, which is empty when
  the run ends.
\<close>

theorem unlistable_directory_is_skipped_silently:
  "audit_files_with_clamav \<lparr>os_path_isdir = (\<lambda>p. True), os_scandir = scenario\<rparr> ''/data'' =
    \<lparr>trace =
      [Log INFO ''Starting ClamAV audit of: /data'',
       Yield ''/data'' [''locked''] [''a.txt'', ''b.exe''],
       IsFile ''/data/a.txt'' True,
       Run [''clamscan'', ''--no-summary'', ''/data/a.txt''] clamscan_options
         (CompletedProcess 0 [] []),
       Log INFO ''CLEAN: /data/a.txt'',
       IsFile ''/data/b.exe'' True,
       Run [''clamscan'', ''--no-summary'', ''/data/b.exe''] clamscan_options
         (CompletedProcess 1 (''/data/b.exe: Test.Signature FOUND'' @ [CHR 0x0A]) []),
       Log WARNING ''INFECTED: /data/b.exe'',
       Log WARNING ''  ClamAV Output: /data/b.exe: Test.Signature FOUND'',
       ScandirFailed ''/data/locked'' (PermissionError ''[Errno 13] Permission denied''),
       Log INFO ''ClamAV audit completed.''],
     inaccessible_dirs = {}\<rparr>"
  by (rule scenario_run)

section \<open>The missing scanner binary\<close>

text \<open>
  C4. When a scanner call fails because the binary is not found, the run logs the
  missing-binary ERROR line and ends at once: the trace of the whole run ends with that
  call and that line, so no directory is listed and no file is checked or scanned after
  it, and the line occurs exactly once in the trace.
\<close>

theorem missing_scanner_ends_the_run:
  assumes "i < length (trace (audit_files_with_clamav w start_path))"
    and "trace (audit_files_with_clamav w start_path) ! i =
           Run argv opts (RunRaises (FileNotFoundError m))"
  shows "trace (audit_files_with_clamav w start_path) =
           take i (trace (audit_files_with_clamav w start_path))
           @ [Run argv opts (RunRaises (FileNotFoundError m)), Log ERROR not_found_msg]
         \<and> length (filter (\<lambda>e. e = Log ERROR not_found_msg)
                     (trace (audit_files_with_clamav w start_path))) = 1"
proof -
  let ?T = "trace (audit_files_with_clamav w start_path)"
  have nq: "\<not> quiet ?T"
  proof
    assume "quiet ?T"
    moreover have "?T ! i \<in> set ?T" using assms(1) by simp
    ultimately have "\<not> run_not_found (?T ! i)" unfolding quiet_def by blast
    with assms(2) show False by simp
  qed
  with audit_quiet_or_aborted [of w start_path] have "aborted ?T" by blast
  then obtain pre argv' opts' m' where pre: "quiet pre"
    and T: "?T = pre @ [Run argv' opts' (RunRaises (FileNotFoundError m')), Log ERROR not_found_msg]"
    unfolding aborted_def by blast
  have len: "length ?T = length pre + 2" using T by simp
  have i: "i = length pre"
  proof (rule ccontr)
    assume ne: "i \<noteq> length pre"
    show False
    proof (cases "i < length pre")
      case True
      then have "?T ! i = pre ! i" using T by (simp add: nth_append)
      moreover have "pre ! i \<in> set pre" using True by simp
      ultimately have "\<not> run_not_found (?T ! i)" using pre unfolding quiet_def by metis
      with assms(2) show False by simp
    next
      case False
      with ne assms(1) len have "i = Suc (length pre)" by simp
      then have "?T ! i = Log ERROR not_found_msg" using T by (simp add: nth_append)
      with assms(2) show False by simp
    qed
  qed
  have "?T ! i = Run argv' opts' (RunRaises (FileNotFoundError m'))"
    using T i by (simp add: nth_append)
  with assms(2) have eq: "argv' = argv" "opts' = opts" "m' = m" by simp_all
  have tk: "take i ?T = pre" using T i by simp
  have f: "filter (\<lambda>e. e = Log ERROR not_found_msg) pre = []"
    using pre unfolding quiet_def by (simp add: filter_empty_conv)
  have "filter (\<lambda>e. e = Log ERROR not_found_msg) ?T = [Log ERROR not_found_msg]"
    by (subst T) (simp add: f)
  then show ?thesis using T eq tk by simp
qed

theorem missing_scanner_ends_the_run_witness:
  "trace (audit_files_with_clamav \<lparr>os_path_isdir = (\<lambda>p. True), os_scandir = no_scanner\<rparr> ''/data'') =
     [Log INFO ''Starting ClamAV audit of: /data'',
      Yield ''/data'' [''sub''] [''a.txt'', ''b.exe''],
      IsFile ''/data/a.txt'' True]
     @ [Run [''clamscan'', ''--no-summary'', ''/data/a.txt''] clamscan_options
         (RunRaises (FileNotFoundError ''[Errno 2] No such file or directory: clamscan'')),
        Log ERROR not_found_msg]
   \<and> length (filter (\<lambda>e. e = Log ERROR not_found_msg)
        (trace (audit_files_with_clamav \<lparr>os_path_isdir = (\<lambda>p. True), os_scandir = no_scanner\<rparr>
           ''/data''))) = 1"
  using missing_scanner_ends_the_run
    [of 3 "\<lparr>os_path_isdir = (\<lambda>p. True), os_scandir = no_scanner\<rparr>" "''/data''"
        "[''clamscan'', ''--no-summary'', ''/data/a.txt'']" clamscan_options
        "''[Errno 2] No such file or directory: clamscan''"]
  by (simp add: no_scanner_run)

section \<open>What is passed to the scanner\<close>

text \<open>
  C6. An entry for which \<^verbatim>\<open>os.path.isfile\<close> answers False (a named pipe, a socket, a
  device, a broken link, an entry that has gone since the listing) is never passed to the
  scanner: in the trace of a run every scanner call comes right after the
  \<^verbatim>\<open>os.path.isfile\<close> check that answered True for the very path it scans, and a check
  that answered False is never followed by a scanner call.
\<close>

theorem only_accepted_paths_are_scanned:
  assumes "i < length (trace (audit_files_with_clamav w start_path))"
  shows "(trace (audit_files_with_clamav w start_path) ! i = Run argv opts r \<longrightarrow>
            0 < i \<and>
            (\<exists>file_path. argv = [''clamscan'', ''--no-summary'', file_path] \<and>
               trace (audit_files_with_clamav w start_path) ! (i - 1) = IsFile file_path True))
         \<and> (trace (audit_files_with_clamav w start_path) ! i = IsFile q False \<and>
              Suc i < length (trace (audit_files_with_clamav w start_path)) \<longrightarrow>
            (\<forall>argv' opts' r'.
               trace (audit_files_with_clamav w start_path) ! Suc i \<noteq> Run argv' opts' r'))"
proof (intro conjI impI allI)
  let ?T = "trace (audit_files_with_clamav w start_path)"
  assume "?T ! i = Run argv opts r"
  with assms audit_guarded [of w start_path]
  show "0 < i" unfolding guarded_def by blast
next
  let ?T = "trace (audit_files_with_clamav w start_path)"
  assume "?T ! i = Run argv opts r"
  with assms audit_guarded [of w start_path]
  obtain p where "argv = clamscan_command p" "?T ! (i - 1) = IsFile p True"
    unfolding guarded_def by blast
  then show "\<exists>file_path. argv = [''clamscan'', ''--no-summary'', file_path] \<and>
               ?T ! (i - 1) = IsFile file_path True"
    by (auto simp: clamscan_command_def)
next
  let ?T = "trace (audit_files_with_clamav w start_path)"
  fix argv' opts' r'
  assume a: "?T ! i = IsFile q False \<and> Suc i < length ?T"
  show "?T ! Suc i \<noteq> Run argv' opts' r'"
  proof
    assume "?T ! Suc i = Run argv' opts' r'"
    with a audit_guarded [of w start_path]
    obtain p where "?T ! (Suc i - 1) = IsFile p True"
      unfolding guarded_def by blast
    with a show False by simp
  qed
qed

theorem only_accepted_paths_are_scanned_witness:
  "trace (audit_files_with_clamav \<lparr>os_path_isdir = (\<lambda>p. True), os_scandir = mixed\<rparr> ''/data'') ! 5 =
      Run [''clamscan'', ''--no-summary'', ''/data/a.txt''] clamscan_options (CompletedProcess 0 [] [])
   \<and> trace (audit_files_with_clamav \<lparr>os_path_isdir = (\<lambda>p. True), os_scandir = mixed\<rparr> ''/data'') ! 4 =
      IsFile ''/data/a.txt'' True
   \<and> trace (audit_files_with_clamav \<lparr>os_path_isdir = (\<lambda>p. True), os_scandir = mixed\<rparr> ''/data'') ! 2 =
      IsFile ''/data/pipe'' False
   \<and> trace (audit_files_with_clamav \<lparr>os_path_isdir = (\<lambda>p. True), os_scandir = mixed\<rparr> ''/data'') ! 3 =
      IsFile ''/data/gone.tmp'' False"
  using only_accepted_paths_are_scanned
    [of 5 "\<lparr>os_path_isdir = (\<lambda>p. True), os_scandir = mixed\<rparr>" "''/data''"
        "[''clamscan'', ''--no-summary'', ''/data/a.txt'']" clamscan_options
        "CompletedProcess 0 [] []" "''/data/pipe''"]
    only_accepted_paths_are_scanned
    [of 2 "\<lparr>os_path_isdir = (\<lambda>p. True), os_scandir = mixed\<rparr>" "''/data''"
        "[]" clamscan_options "CompletedProcess 0 [] []" "''/data/pipe''"]
  by (simp add: mixed_run)

text \<open>
  C9. Every scanner call of a run has the argument list
  \<^verbatim>\<open>clamscan --no-summary <file-path>\<close>, for a path that \<^verbatim>\<open>os.path.isfile\<close> accepted, and
  the options \<^verbatim>\<open>capture_output=True, text=True, check=False\<close>; a completed process is
  data whatever its exit status: the scan of the file neither raises nor returns from
  the run.
\<close>

theorem scanner_invocation:
  assumes "Run argv opts r \<in> set (trace (audit_files_with_clamav w start_path))"
  shows "(\<exists>file_path. argv = [''clamscan'', ''--no-summary'', file_path] \<and>
            IsFile file_path True \<in> set (trace (audit_files_with_clamav w start_path)))
         \<and> opts = \<lparr>opt_capture_output = True, opt_text = True, opt_check = False\<rparr>
         \<and> (\<forall>p rc out err s. fst (scan_file p (CompletedProcess rc out err) s) = Continue)"
proof -
  let ?T = "trace (audit_files_with_clamav w start_path)"
  from assms obtain i where i: "i < length ?T" "?T ! i = Run argv opts r"
    by (auto simp: in_set_conv_nth)
  with audit_guarded [of w start_path]
  obtain p where p: "opts = clamscan_options" "0 < i" "argv = clamscan_command p"
    "?T ! (i - 1) = IsFile p True"
    unfolding guarded_def by blast
  have "i - 1 < length ?T" using i(1) by arith
  then have "?T ! (i - 1) \<in> set ?T" by (rule nth_mem)
  with p show ?thesis
    by (auto simp: clamscan_command_def clamscan_options_def scan_file_frame)
qed

theorem scanner_invocation_witness:
  "Run [''clamscan'', ''--no-summary'', ''/data/b.exe''] clamscan_options
      (CompletedProcess 1 (''/data/b.exe: Test.Signature FOUND'' @ [CHR 0x0A]) [])
     \<in> set (trace (audit_files_with_clamav
                 \<lparr>os_path_isdir = (\<lambda>p. True), os_scandir = scenario\<rparr> ''/data''))
   \<and> clamscan_options = \<lparr>opt_capture_output = True, opt_text = True, opt_check = False\<rparr>
   \<and> fst (scan_file ''/data/b.exe''
            (CompletedProcess 1 (''/data/b.exe: Test.Signature FOUND'' @ [CHR 0x0A]) [])
            init_state) = Continue"
  using scanner_invocation
    [of "[''clamscan'', ''--no-summary'', ''/data/b.exe'']" clamscan_options
        "CompletedProcess 1 (''/data/b.exe: Test.Signature FOUND'' @ [CHR 0x0A]) []"
        "\<lparr>os_path_isdir = (\<lambda>p. True), os_scandir = scenario\<rparr>" "''/data''"]
  by (simp add: scenario_run)

section \<open>The set of inaccessible directories\<close>

text \<open>
  C7. The set of inaccessible directories only grows, over a whole walk and over every
  run of the loop body; it is consulted for every directory that is yielded, before any of
  its files is checked and before any of its subdirectories is entered (a directory found
  in the set has its \<^verbatim>\<open>dirs\<close> emptied and nothing else happens); and it starts empty in
  every run: whatever it holds when a run ends was yielded, and logged with the permission
  warning, in that same run.
\<close>

theorem inaccessible_dirs_set:
  "inaccessible_dirs s \<subseteq> inaccessible_dirs (snd (walk top_path r s))
   \<and> inaccessible_dirs s \<subseteq> inaccessible_dirs (snd (snd (loop_body root dirs files s)))
   \<and> (top_path \<in> inaccessible_dirs s \<longrightarrow>
        walk top_path (Entries es) s =
          (Continue, s\<lparr>trace := trace s @ [Yield top_path (dirs_of es) (map fst (files_of es)),
                                            Skip top_path]\<rparr>))
   \<and> (\<forall>d\<in>inaccessible_dirs (audit_files_with_clamav w start_path).
        (\<exists>dirs files. Yield d dirs files \<in> set (trace (audit_files_with_clamav w start_path))) \<and>
        Log WARNING (''Permission denied to access directory: '' @ d @ ''. Skipping this directory.'')
          \<in> set (trace (audit_files_with_clamav w start_path)))"
proof (intro conjI impI)
  show "inaccessible_dirs s \<subseteq> inaccessible_dirs (snd (walk top_path r s))"
    using walk_mono [of top_path r s] by (cases "walk top_path r s") simp
  show "inaccessible_dirs s \<subseteq> inaccessible_dirs (snd (snd (loop_body root dirs files s)))"
    using loop_body_mono [of root dirs files s]
    by (cases "loop_body root dirs files s") simp
  show "walk top_path (Entries es) s =
          (Continue, s\<lparr>trace := trace s @ [Yield top_path (dirs_of es) (map fst (files_of es)),
                                            Skip top_path]\<rparr>)"
    if "top_path \<in> inaccessible_dirs s"
    using that by (simp add: walk_Entries loop_body_eq walk_subdirs_no_dirs)
  show "\<forall>d\<in>inaccessible_dirs (audit_files_with_clamav w start_path).
        (\<exists>dirs files. Yield d dirs files \<in> set (trace (audit_files_with_clamav w start_path))) \<and>
        Log WARNING (''Permission denied to access directory: '' @ d @ ''. Skipping this directory.'')
          \<in> set (trace (audit_files_with_clamav w start_path))"
    using audit_found_here [of w start_path]
    unfolding found_here_def permission_msg_def by simp
qed

theorem inaccessible_dirs_set_witness:
  "inaccessible_dirs (audit_files_with_clamav \<lparr>os_path_isdir = (\<lambda>p. True), os_scandir = faulty\<rparr>
      ''/data'') = {''/data/sub''}
   \<and> Yield ''/data/sub'' [''deep''] [''f'']
        \<in> set (trace (audit_files_with_clamav \<lparr>os_path_isdir = (\<lambda>p. True), os_scandir = faulty\<rparr>
                   ''/data''))
   \<and> Log WARNING ''Permission denied to access directory: /data/sub. Skipping this directory.''
        \<in> set (trace (audit_files_with_clamav \<lparr>os_path_isdir = (\<lambda>p. True), os_scandir = faulty\<rparr>
                   ''/data''))
   \<and> walk ''/data/sub'' (Entries [(''deep'', SubDir False (Entries []))])
         \<lparr>trace = [], inaccessible_dirs = {''/data/sub''}\<rparr> =
       (Continue, \<lparr>trace = [Yield ''/data/sub'' [''deep''] [], Skip ''/data/sub''],
                   inaccessible_dirs = {''/data/sub''}\<rparr>)"
  using inaccessible_dirs_set
    [where s = "\<lparr>trace = [], inaccessible_dirs = {''/data/sub''}\<rparr>" and top_path = "''/data/sub''"
       and es = "[(''deep'', SubDir False (Entries []))]"
       and w = "\<lparr>os_path_isdir = (\<lambda>p. True), os_scandir = faulty\<rparr>" and start_path = "''/data''"]
  by (simp add: faulty_run)

text \<open>
  C10. On a well-formed tree, from a start path that is not empty, the branch of lines
  28-30 is never taken: the walk yields no directory twice, and a directory is put into
  the set only in the step that also empties its \<^verbatim>\<open>dirs\<close>, so a directory that is yielded
  is never in the set already.
\<close>

theorem membership_branch_is_never_taken:
  assumes "wf_listing (os_scandir w)" and "start_path \<noteq> []"
  shows "Skip root \<notin> set (trace (audit_files_with_clamav w start_path))
         \<and> distinct (yielded (trace (audit_files_with_clamav w start_path)))
         \<and> (inaccessible_dirs (snd (snd (loop_body root dirs files s))) \<noteq> inaccessible_dirs s \<longrightarrow>
              fst (snd (loop_body root dirs files s)) = [])"
proof (intro conjI impI)
  show "Skip root \<notin> set (trace (audit_files_with_clamav w start_path))"
    using audit_no_skip [OF assms] by fastforce
  show "distinct (yielded (trace (audit_files_with_clamav w start_path)))"
    using audit_visited [OF assms] by (rule distinct_yielded)
  assume g: "inaccessible_dirs (snd (snd (loop_body root dirs files s))) \<noteq> inaccessible_dirs s"
  obtain c dirs' s' where lb: "loop_body root dirs files s = (c, dirs', s')"
    by (cases "loop_body root dirs files s") auto
  from lb have "inaccessible_dirs s' = inaccessible_dirs s \<or> dirs' = []"
    by (cases rule: loop_body_cases) auto
  with g lb show "fst (snd (loop_body root dirs files s)) = []" by simp
qed

theorem membership_branch_is_never_taken_witness:
  "wf_listing (os_scandir \<lparr>os_path_isdir = (\<lambda>p. True), os_scandir = faulty\<rparr>)
   \<and> ''/data'' \<noteq> []
   \<and> Skip ''/data/sub''
        \<notin> set (trace (audit_files_with_clamav \<lparr>os_path_isdir = (\<lambda>p. True), os_scandir = faulty\<rparr>
                   ''/data''))
   \<and> yielded (trace (audit_files_with_clamav \<lparr>os_path_isdir = (\<lambda>p. True), os_scandir = faulty\<rparr>
                   ''/data'')) = [''/data'', ''/data/sub'']
   \<and> inaccessible_dirs (audit_files_with_clamav \<lparr>os_path_isdir = (\<lambda>p. True), os_scandir = faulty\<rparr>
                   ''/data'') = {''/data/sub''}"
proof -
  have h1: "wf_listing (os_scandir \<lparr>os_path_isdir = (\<lambda>p. True), os_scandir = faulty\<rparr>)"
    by (simp add: faulty_def valid_name_def)
  have h2: "''/data'' \<noteq> []" by simp
  show ?thesis
    using h1 h2 membership_branch_is_never_taken [OF h1 h2, of "''/data/sub''"]
    by (simp add: faulty_run)
qed

section \<open>Every file scanned once and classified once\<close>

text \<open>
  C5, as the code has it. On a well-formed tree, from a start path that is not empty, no
  path is passed to the scanner twice, and each path is classified (clean, infected or
  scan error) exactly as often as a scanner process completed on it, so at most once. A
  path that was passed to the scanner is classified exactly once when its process
  returned and not at all when the call raised (the missing binary ends the run, any
  other failure is logged as an unexpected error). When the start path is a directory,
  the scanner calls of the run are exactly what the tree offers, in the order of the
  walk, up to and including the first call that finds the binary missing: every entry
  that \<^verbatim>\<open>os.path.isfile\<close> accepts in a directory that the walk reaches is scanned, whatever
  happened to the files before it, and when no call finds the binary missing all of them
  are.
\<close>

theorem scanned_once_and_classified_once:
  assumes "wf_listing (os_scandir w)" and "start_path \<noteq> []"
  shows "distinct (scanned (trace (audit_files_with_clamav w start_path)))
       \<and> (\<forall>p. length (filter (classifies p) (trace (audit_files_with_clamav w start_path)))
                = length (filter (completed_on p) (trace (audit_files_with_clamav w start_path)))
              \<and> length (filter (classifies p) (trace (audit_files_with_clamav w start_path))) \<le> 1)
       \<and> (\<forall>p r. (p, r) \<in> set (runs (trace (audit_files_with_clamav w start_path))) \<longrightarrow>
              length (filter (classifies p) (trace (audit_files_with_clamav w start_path)))
                = (if is_completed r then 1 else 0))
       \<and> (os_path_isdir w start_path \<longrightarrow>
            runs (trace (audit_files_with_clamav w start_path))
              = until_missing (reg_runs start_path (os_scandir w))
            \<and> scanned (trace (audit_files_with_clamav w start_path))
              = map fst (until_missing (reg_runs start_path (os_scandir w)))
            \<and> (\<not> has_missing (reg_runs start_path (os_scandir w)) \<longrightarrow>
                 runs (trace (audit_files_with_clamav w start_path))
                   = reg_runs start_path (os_scandir w)
                 \<and> (\<forall>p r. (p, r) \<in> set (reg_runs start_path (os_scandir w)) \<longrightarrow>
                       length (filter (classifies p) (trace (audit_files_with_clamav w start_path)))
                         = (if is_completed r then 1 else 0))))"
proof -
  let ?T = "trace (audit_files_with_clamav w start_path)"
  let ?R = "reg_runs start_path (os_scandir w)"
  have d: "distinct (scanned ?T)"
    using audit_visited [OF assms] by (rule distinct_scanned)
  have bal: "length (filter (classifies p) ?T) = length (filter (completed_on p) ?T)" for p
    using audit_balanced [of w start_path] unfolding balanced_def by blast
  have le: "length (filter (classifies p) ?T) \<le> 1" for p
  proof -
    have "length (filter (completed_on p) ?T) \<le> count_list (scanned ?T) p"
      by (rule completed_on_scanned)
    also have "\<dots> \<le> 1" using d by (rule distinct_count_le_1)
    finally show ?thesis using bal [of p] by simp
  qed
  have cl: "length (filter (classifies p) ?T) = (if is_completed r then 1 else 0)"
    if "(p, r) \<in> set (runs ?T)" for p r
    using assms that by (rule audit_classified)
  have cov: "runs ?T = until_missing ?R \<and> scanned ?T = map fst (until_missing ?R)
       \<and> (\<not> has_missing ?R \<longrightarrow> runs ?T = ?R
            \<and> (\<forall>p r. (p, r) \<in> set ?R \<longrightarrow>
                  length (filter (classifies p) ?T) = (if is_completed r then 1 else 0)))"
    if isdir: "os_path_isdir w start_path"
  proof -
    from audit_runs [OF assms isdir] have r: "runs ?T = until_missing ?R" by simp
    then have s: "scanned ?T = map fst (until_missing ?R)" by (simp add: scanned_runs)
    have "runs ?T = ?R \<and> (\<forall>p r. (p, r) \<in> set ?R \<longrightarrow>
                  length (filter (classifies p) ?T) = (if is_completed r then 1 else 0))"
      if nm: "\<not> has_missing ?R"
    proof -
      from r nm have e: "runs ?T = ?R" by (simp add: until_missing_id)
      with cl show ?thesis by simp
    qed
    with r s show ?thesis by blast
  qed
  from d bal le cl cov show ?thesis by blast
qed

theorem scanned_once_and_classified_once_witness:
  "wf_listing (os_scandir \<lparr>os_path_isdir = (\<lambda>p. True), os_scandir = flaky\<rparr>)
   \<and> ''/data'' \<noteq> []
   \<and> os_path_isdir \<lparr>os_path_isdir = (\<lambda>p. True), os_scandir = flaky\<rparr> ''/data''
   \<and> \<not> has_missing (reg_runs ''/data'' flaky)
   \<and> runs (trace (audit_files_with_clamav \<lparr>os_path_isdir = (\<lambda>p. True), os_scandir = flaky\<rparr>
        ''/data''))
      = [(''/data/x'', RunRaises (OtherException ''[Errno 12] Cannot allocate memory'')),
         (''/data/y'', CompletedProcess 0 [] []),
         (''/data/sub/z'', CompletedProcess 1 [] [])]
   \<and> length (filter (classifies ''/data/x'')
        (trace (audit_files_with_clamav \<lparr>os_path_isdir = (\<lambda>p. True), os_scandir = flaky\<rparr>
           ''/data''))) = 0
   \<and> length (filter (classifies ''/data/y'')
        (trace (audit_files_with_clamav \<lparr>os_path_isdir = (\<lambda>p. True), os_scandir = flaky\<rparr>
           ''/data''))) = 1
   \<and> length (filter (classifies ''/data/sub/z'')
        (trace (audit_files_with_clamav \<lparr>os_path_isdir = (\<lambda>p. True), os_scandir = flaky\<rparr>
           ''/data''))) = 1"
proof -
  let ?w = "\<lparr>os_path_isdir = (\<lambda>p. True), os_scandir = flaky\<rparr>"
  let ?T = "trace (audit_files_with_clamav ?w ''/data'')"
  have h1: "wf_listing (os_scandir ?w)" by (simp add: flaky_wf)
  have h2: "''/data'' \<noteq> []" by simp
  have h3: "os_path_isdir ?w ''/data''" by simp
  have h4: "\<not> has_missing (reg_runs ''/data'' flaky)" by (simp add: flaky_reg_runs)
  have sc: "os_scandir ?w = flaky" by simp
  note t0 = scanned_once_and_classified_once [OF h1 h2]
  from t0 have "os_path_isdir ?w ''/data'' \<longrightarrow>
       runs ?T = until_missing (reg_runs ''/data'' (os_scandir ?w))
       \<and> scanned ?T = map fst (until_missing (reg_runs ''/data'' (os_scandir ?w)))
       \<and> (\<not> has_missing (reg_runs ''/data'' (os_scandir ?w)) \<longrightarrow>
            runs ?T = reg_runs ''/data'' (os_scandir ?w)
            \<and> (\<forall>p r. (p, r) \<in> set (reg_runs ''/data'' (os_scandir ?w)) \<longrightarrow>
                  length (filter (classifies p) ?T) = (if is_completed r then 1 else 0)))"
    by (rule conjunct2 [THEN conjunct2, THEN conjunct2])
  with h3 h4 have r: "runs ?T = reg_runs ''/data'' flaky"
    and a: "\<And>p r. (p, r) \<in> set (reg_runs ''/data'' flaky) \<Longrightarrow>
               length (filter (classifies p) ?T) = (if is_completed r then 1 else 0)"
    unfolding sc by blast+
  have "length (filter (classifies ''/data/x'') ?T) = 0"
    using a [of "''/data/x''" "RunRaises (OtherException ''[Errno 12] Cannot allocate memory'')"]
    by (simp add: flaky_reg_runs)
  moreover have "length (filter (classifies ''/data/y'') ?T) = 1"
    using a [of "''/data/y''" "CompletedProcess 0 [] []"] by (simp add: flaky_reg_runs)
  moreover have "length (filter (classifies ''/data/sub/z'') ?T) = 1"
    using a [of "''/data/sub/z''" "CompletedProcess 1 [] []"] by (simp add: flaky_reg_runs)
  ultimately show ?thesis using h1 h2 h3 h4 r by (simp add: flaky_reg_runs)
qed

text \<open>
  C5 as stated fails in two ways. On a machine without the scanner, the tree
  \<open>no_scanner\<close> is well formed and offers three regular files, but the first scanner call
  ends the run: only \<^verbatim>\<open>/data/a.txt\<close> is passed to the scanner, and neither it nor
  \<^verbatim>\<open>/data/b.exe\<close> is classified. And when a scanner call fails with another exception,
  as for \<^verbatim>\<open>/data/x\<close> in the well-formed tree \<open>flaky\<close>, the file is scanned once and the run
  goes on to its end, but none of the three classifications is logged for it.
\<close>

theorem scanned_files_left_unclassified:
  "wf_listing no_scanner
   \<and> map fst (reg_runs ''/data'' no_scanner)
       = [''/data/a.txt'', ''/data/b.exe'', ''/data/sub/c.txt'']
   \<and> length (filter (classifies ''/data/a.txt'')
        (trace (audit_files_with_clamav \<lparr>os_path_isdir = (\<lambda>p. True), os_scandir = no_scanner\<rparr>
           ''/data''))) = 0
   \<and> length (filter (classifies ''/data/b.exe'')
        (trace (audit_files_with_clamav \<lparr>os_path_isdir = (\<lambda>p. True), os_scandir = no_scanner\<rparr>
           ''/data''))) = 0
   \<and> scanned (trace (audit_files_with_clamav \<lparr>os_path_isdir = (\<lambda>p. True), os_scandir = no_scanner\<rparr>
           ''/data'')) = [''/data/a.txt'']
   \<and> wf_listing flaky
   \<and> map fst (reg_runs ''/data'' flaky) = [''/data/x'', ''/data/y'', ''/data/sub/z'']
   \<and> scanned (trace (audit_files_with_clamav \<lparr>os_path_isdir = (\<lambda>p. True), os_scandir = flaky\<rparr>
           ''/data'')) = [''/data/x'', ''/data/y'', ''/data/sub/z'']
   \<and> length (filter (classifies ''/data/x'')
        (trace (audit_files_with_clamav \<lparr>os_path_isdir = (\<lambda>p. True), os_scandir = flaky\<rparr>
           ''/data''))) = 0
   \<and> last (trace (audit_files_with_clamav \<lparr>os_path_isdir = (\<lambda>p. True), os_scandir = flaky\<rparr>
           ''/data'')) = Log INFO ''ClamAV audit completed.''"
proof -
  have "wf_listing no_scanner" by (simp add: no_scanner_def valid_name_def)
  moreover have "length (filter (classifies ''/data/x'')
        (trace (audit_files_with_clamav \<lparr>os_path_isdir = (\<lambda>p. True), os_scandir = flaky\<rparr>
           ''/data''))) = 0"
    by (simp add: flaky_run classifies_def clean_msg_def infected_msg_def scan_error_msg_def)
  ultimately show ?thesis
    by (simp add: no_scanner_run flaky_run flaky_wf flaky_reg_runs no_scanner_reg_runs)
qed

end
